theory Spec2Isabelle
  imports Complex_Main "HOL-Library.Sublist" "HOL-Library.Log_Nat"
begin

section \<open>Text and numbers as disk.py uses them\<close>

text \<open>
  A Python \<open>str\<close> is modelled as an Isabelle \<open>string\<close>: a list of characters with
  codes 0..255, read as the code points U+0000..U+00FF. The character classes below are
  those of Python's \<open>re\<close> module on that range. A Python \<open>float\<close> is an IEEE 754 binary64
  number, modelled below with its rounding, its infinities and its NaN.
\<close>

definition ESC :: char where
  "ESC = CHR 0x1B"

definition is_digit :: "char \<Rightarrow> bool" where
  "is_digit c = (c \<in> set ''0123456789'')"

definition is_space :: "char \<Rightarrow> bool" where
  "is_space c = (let n = (of_char c :: nat) in
     (9 \<le> n \<and> n \<le> 13) \<or> (28 \<le> n \<and> n \<le> 32) \<or> n = 133 \<or> n = 160)"

definition ascii_upper :: string where
  "ascii_upper = ''ABCDEFGHIJKLMNOPQRSTUVWXYZ''"

definition ascii_lower :: string where
  "ascii_lower = ''abcdefghijklmnopqrstuvwxyz''"

definition is_ascii_letter :: "char \<Rightarrow> bool" where
  "is_ascii_letter c = (c \<in> set ascii_upper \<or> c \<in> set ascii_lower)"

definition is_word :: "char \<Rightarrow> bool" where
  "is_word c = (let n = (of_char c :: nat) in
     is_digit c \<or> is_ascii_letter c \<or> c = CHR ''_'' \<or>
     n = 170 \<or> n = 178 \<or> n = 179 \<or> n = 181 \<or> n = 185 \<or> n = 186 \<or>
     (188 \<le> n \<and> n \<le> 190) \<or> (192 \<le> n \<and> n \<le> 214) \<or>
     (216 \<le> n \<and> n \<le> 246) \<or> 248 \<le> n)"

definition lower :: "char \<Rightarrow> char" where
  "lower c = (case map_of (zip ascii_upper ascii_lower) c of Some l \<Rightarrow> l | None \<Rightarrow> c)"

definition is_ansi_param :: "char \<Rightarrow> bool" where
  "is_ansi_param c = (is_digit c \<or> c = CHR '';'')"

subsection \<open>Regular expressions with Python's backtracking order\<close>

text \<open>
  The patterns of disk.py are values of \<open>rx\<close>. \<open>matches r st\<close> lists every way \<open>r\<close> can
  match at the state \<open>st\<close> (the character before the position, the text from the position
  on, the groups captured so far), in the order in which Python's backtracking matcher
  tries them: a greedy repetition tries the longest run first, an alternation its left
  branch first. The first element is the match Python reports.
\<close>

datatype rx =
    REmpty
  | RChar "char \<Rightarrow> bool"
  | RSeq rx rx
  | RAlt rx rx
  | ROpt rx
  | RRep nat "nat option" "char \<Rightarrow> bool"
  | RBound
  | RGroup rx

type_synonym mstate = "char option \<times> string \<times> string list"

definition at_boundary :: "char option \<Rightarrow> string \<Rightarrow> bool" where
  "at_boundary prev rest =
     ((case prev of None \<Rightarrow> False | Some c \<Rightarrow> is_word c) \<noteq>
      (case rest of [] \<Rightarrow> False | c # _ \<Rightarrow> is_word c))"

definition consume :: "nat \<Rightarrow> mstate \<Rightarrow> mstate" where
  "consume j st = (case st of (prev, rest, caps) \<Rightarrow>
     (if j = 0 then prev else Some (rest ! (j - 1)), drop j rest, caps))"

fun matches :: "rx \<Rightarrow> mstate \<Rightarrow> mstate list" where
  "matches REmpty st = [st]"
| "matches (RChar P) (prev, rest, caps) =
     (case rest of [] \<Rightarrow> [] | c # cs \<Rightarrow> if P c then [(Some c, cs, caps)] else [])"
| "matches (RSeq a b) st = concat (map (matches b) (matches a st))"
| "matches (RAlt a b) st = matches a st @ matches b st"
| "matches (ROpt a) st = matches a st @ [st]"
| "matches (RRep lo hi P) (prev, rest, caps) =
     (let avail = length (takeWhile P rest);
          top = (case hi of None \<Rightarrow> avail | Some h \<Rightarrow> min h avail)
      in map (\<lambda>j. consume j (prev, rest, caps)) (rev [lo..<Suc top]))"
| "matches RBound (prev, rest, caps) =
     (if at_boundary prev rest then [(prev, rest, caps)] else [])"
| "matches (RGroup a) (prev, rest, caps) =
     map (\<lambda>(p, r, g). (p, r, g @ [take (length rest - length r) rest]))
       (matches a (prev, rest, caps))"

text \<open>\<open>re.search\<close>: the first match at the leftmost position that has one; the result
  is the list of captured groups.\<close>

fun search_from :: "rx \<Rightarrow> char option \<Rightarrow> string \<Rightarrow> string list option" where
  "search_from r prev [] =
     (case matches r (prev, [], []) of
        (p, rest, caps) # _ \<Rightarrow> Some caps
      | [] \<Rightarrow> None)"
| "search_from r prev (c # cs) =
     (case matches r (prev, c # cs, []) of
        (p, rest, caps) # _ \<Rightarrow> Some caps
      | [] \<Rightarrow> search_from r (Some c) cs)"

definition re_search :: "rx \<Rightarrow> string \<Rightarrow> string list option" where
  "re_search r s = search_from r None s"

text \<open>\<open>pattern.match(s, i)\<close> on the text \<open>s[i:]\<close>: the matched text (\<open>m.group()\<close>) and
  the text after it (from \<open>m.end()\<close>). Used only with a pattern that has no \<open>\b\<close>.\<close>

definition re_match :: "rx \<Rightarrow> string \<Rightarrow> (string \<times> string) option" where
  "re_match r s =
     (case matches r (None, s, []) of
        [] \<Rightarrow> None
      | (p, rest, caps) # _ \<Rightarrow> Some (take (length s - length rest) s, rest))"

fun lit :: "string \<Rightarrow> rx" where
  "lit [] = REmpty"
| "lit (x # xs) = RSeq (RChar (\<lambda>c. c = x)) (lit xs)"

text \<open>A literal under \<open>re.I\<close>.\<close>

fun lit_i :: "string \<Rightarrow> rx" where
  "lit_i [] = REmpty"
| "lit_i (x # xs) = RSeq (RChar (\<lambda>c. lower c = lower x)) (lit_i xs)"

text \<open>The pattern \<^verbatim>\<open>progress indication|format in progress\<close> with \<open>re.I\<close> (line 360).\<close>

definition RE_PROGRESS :: rx where
  "RE_PROGRESS = RAlt (lit_i ''progress indication'') (lit_i ''format in progress'')"

text \<open>The pattern \<^verbatim>\<open>error|fail\<close> with \<open>re.I\<close> (line 380).\<close>

definition RE_ERROR :: rx where
  "RE_ERROR = RAlt (lit_i ''error'') (lit_i ''fail'')"

text \<open>The pattern \<^verbatim>\<open>(\d+(?:\.\d+)?)\s*%\<close> (line 362).\<close>

definition RE_PCT :: rx where
  "RE_PCT =
     RSeq (RGroup (RSeq (RRep 1 None is_digit)
                        (ROpt (RSeq (RChar (\<lambda>c. c = CHR ''.'')) (RRep 1 None is_digit)))))
    (RSeq (RRep 0 None is_space) (RChar (\<lambda>c. c = CHR ''%'')))"

text \<open>The pattern \<^verbatim>\<open>\b(\d{1,5})\s*/\s*(65535|65536)\b\<close> (line 366).\<close>

definition RE_RATIO :: rx where
  "RE_RATIO =
     RSeq RBound
    (RSeq (RGroup (RRep 1 (Some 5) is_digit))
    (RSeq (RRep 0 None is_space)
    (RSeq (RChar (\<lambda>c. c = CHR ''/''))
    (RSeq (RRep 0 None is_space)
    (RSeq (RGroup (RAlt (lit ''65535'') (lit ''65536'')))
     RBound)))))"

text \<open>\<open>_ANSI_ESC\<close> (line 300): ESC, an opening bracket, any run of digits and
  semicolons, one ASCII letter.\<close>

definition ANSI_ESC :: rx where
  "ANSI_ESC =
     RSeq (RChar (\<lambda>c. c = ESC))
    (RSeq (RChar (\<lambda>c. c = CHR ''[''))
    (RSeq (RRep 0 None is_ansi_param)
          (RChar is_ascii_letter)))"

subsection \<open>Floats\<close>

text \<open>
  A float is a finite binary64 number, given by its value, or an infinity, or NaN. The two
  zeros are one value here: nothing disk.py does with a float tells them apart
  (comparisons, \<open>int\<close>, \<open>max\<close>, \<open>min\<close> and the test for a zero divisor treat them alike).
  An arithmetic operation is the exact operation followed by \<open>round64\<close>, rounding to the
  nearest binary64 number, ties to even, and to an infinity from \<open>2 ^ 1024\<close> on.
\<close>

datatype fl = Fin rat | PInf | NInf | NaN

definition pow2 :: "int \<Rightarrow> rat" where
  "pow2 k = 2 powi k"

text \<open>The exponent \<open>e\<close> with \<open>2 ^ e \<le> q < 2 ^ (e + 1)\<close>, for a positive \<open>q\<close>.\<close>

definition ilog2 :: "rat \<Rightarrow> int" where
  "ilog2 q = (case quotient_of q of (a, b) \<Rightarrow>
     (let e = bitlen a - bitlen b in if pow2 e \<le> q then e else e - 1))"

text \<open>Rounding to the nearest integer, ties to even.\<close>

definition rne :: "rat \<Rightarrow> int" where
  "rne x = (let f = \<lfloor>x\<rfloor>; d = x - of_int f
            in if d < 1 / 2 then f else if 1 / 2 < d then f + 1
               else if even f then f else f + 1)"

text \<open>Below \<open>2 ^ -1022\<close> the numbers are the multiples of \<open>2 ^ -1074\<close>; above, a number
  has 53 significant bits.\<close>

definition round64 :: "rat \<Rightarrow> fl" where
  "round64 q =
     (let a = \<bar>q\<bar> in
      if a = 0 then Fin 0
      else if pow2 1024 \<le> a then (if 0 < q then PInf else NInf)
      else
        (let k = (if a < pow2 (- 1022) then - 1074 else ilog2 a - 52);
             v = of_int (rne (a / pow2 k)) * pow2 k
         in if pow2 1024 \<le> v then (if 0 < q then PInf else NInf)
            else Fin (if 0 < q then v else - v)))"

fun fsub :: "fl \<Rightarrow> fl \<Rightarrow> fl" where
  "fsub NaN y = NaN"
| "fsub x NaN = NaN"
| "fsub PInf PInf = NaN"
| "fsub NInf NInf = NaN"
| "fsub PInf y = PInf"
| "fsub NInf y = NInf"
| "fsub (Fin a) PInf = NInf"
| "fsub (Fin a) NInf = PInf"
| "fsub (Fin a) (Fin b) = round64 (a - b)"

fun fmul :: "fl \<Rightarrow> fl \<Rightarrow> fl" where
  "fmul NaN y = NaN"
| "fmul x NaN = NaN"
| "fmul (Fin a) (Fin b) = round64 (a * b)"
| "fmul (Fin a) PInf = (if a = 0 then NaN else if 0 < a then PInf else NInf)"
| "fmul (Fin a) NInf = (if a = 0 then NaN else if 0 < a then NInf else PInf)"
| "fmul PInf (Fin b) = (if b = 0 then NaN else if 0 < b then PInf else NInf)"
| "fmul NInf (Fin b) = (if b = 0 then NaN else if 0 < b then NInf else PInf)"
| "fmul PInf PInf = PInf"
| "fmul NInf NInf = PInf"
| "fmul PInf NInf = NInf"
| "fmul NInf PInf = NInf"

text \<open>The quotient by a divisor that is not zero.\<close>

fun fquot :: "fl \<Rightarrow> fl \<Rightarrow> fl" where
  "fquot NaN y = NaN"
| "fquot x NaN = NaN"
| "fquot (Fin a) (Fin b) = round64 (a / b)"
| "fquot (Fin a) PInf = Fin 0"
| "fquot (Fin a) NInf = Fin 0"
| "fquot PInf (Fin b) = (if 0 < b then PInf else NInf)"
| "fquot NInf (Fin b) = (if 0 < b then NInf else PInf)"
| "fquot x y = NaN"

text \<open>\<open>x < y\<close> on floats: false as soon as one side is NaN.\<close>

fun fless :: "fl \<Rightarrow> fl \<Rightarrow> bool" where
  "fless (Fin a) (Fin b) = (a < b)"
| "fless (Fin a) PInf = True"
| "fless NInf (Fin b) = True"
| "fless NInf PInf = True"
| "fless x y = False"

text \<open>\<open>min(a, b)\<close> and \<open>max(a, b)\<close> keep the first argument unless the second is strictly
  smaller, or strictly greater.\<close>

definition py_min :: "fl \<Rightarrow> fl \<Rightarrow> fl" where
  "py_min a b = (if fless b a then b else a)"

definition py_max :: "fl \<Rightarrow> fl \<Rightarrow> fl" where
  "py_max a b = (if fless a b then b else a)"

datatype exn = TimeoutExpired | OSError | ZeroDivisionError | ValueError | OverflowError

text \<open>Float division raises on a zero divisor, whatever the dividend.\<close>

definition fdiv :: "fl \<Rightarrow> fl \<Rightarrow> exn + fl" where
  "fdiv a b = (if b = Fin 0 then Inl ZeroDivisionError else Inr (fquot a b))"

subsection \<open>Numbers and their text\<close>

definition digit_val :: "char \<Rightarrow> int" where
  "digit_val c = of_char c - 48"

definition int_of_digits :: "string \<Rightarrow> int" where
  "int_of_digits ds = foldl (\<lambda>n c. 10 * n + digit_val c) 0 ds"

text \<open>\<open>float(t)\<close> for a text \<open>t\<close> of the shape digits or digits.digits, the only shapes
  the two patterns capture: the float nearest to its decimal value.\<close>

definition py_float :: "string \<Rightarrow> fl" where
  "py_float t =
     (let ip = takeWhile (\<lambda>c. c \<noteq> CHR ''.'') t;
          fp = drop (Suc (length ip)) t
      in round64 (of_int (int_of_digits ip) + of_int (int_of_digits fp) / 10 ^ length fp))"

text \<open>\<open>int(x)\<close> of a float truncates towards zero; it raises on NaN and on an infinity.\<close>

definition py_int :: "fl \<Rightarrow> exn + int" where
  "py_int x =
     (case x of
        Fin q \<Rightarrow> Inr (if 0 \<le> q then \<lfloor>q\<rfloor> else \<lceil>q\<rceil>)
      | NaN \<Rightarrow> Inl ValueError
      | _ \<Rightarrow> Inl OverflowError)"

fun str_nat :: "nat \<Rightarrow> string" where
  "str_nat n =
     (if n < 10 then [''0123456789'' ! n]
      else str_nat (n div 10) @ [''0123456789'' ! (n mod 10)])"

declare str_nat.simps [simp del]

definition str_int :: "int \<Rightarrow> string" where
  "str_int i = (if i < 0 then CHR ''-'' # str_nat (nat (- i)) else str_nat (nat i))"

text \<open>The format \<open>{m:02d}\<close> on a number that is never negative here.\<close>

definition fmt_02d :: "int \<Rightarrow> string" where
  "fmt_02d i = (let t = str_int i in replicate (2 - length t) CHR ''0'' @ t)"

text \<open>\<open>fmt_duration\<close> (lines 69-75); the conversion at line 70 can raise.\<close>

definition fmt_duration :: "fl \<Rightarrow> exn + string" where
  "fmt_duration secs0 =
     (case py_int secs0 of
        Inl e \<Rightarrow> Inl e
      | Inr i \<Rightarrow>
          (let secs = max 0 i;
               h = secs div 3600; rem = secs mod 3600;
               m = rem div 60; s = rem mod 60
           in Inr (if h \<noteq> 0 then str_int h @ ''h '' @ fmt_02d m @ ''m '' @ fmt_02d s @ ''s''
                   else if m \<noteq> 0 then str_int m @ ''m '' @ fmt_02d s @ ''s''
                   else str_int s @ ''s'')))"

section \<open>The text width tracker\<close>

text \<open>A match consumes a prefix of the text, and a match of \<open>_ANSI_ESC\<close> consumes at
  least one character: the loop of \<open>_vis_trunc\<close> terminates.\<close>

lemma matches_suffix:
  "(p, r, g) \<in> set (matches x (q, s, h)) \<Longrightarrow> \<exists>pre. s = pre @ r"
proof (induction x arbitrary: p r g q s h)
  case REmpty
  then show ?case by simp
next
  case (RChar P)
  then show ?case by (cases s) (auto split: if_splits)
next
  case (RSeq a b)
  from RSeq.prems obtain p1 r1 g1 where
    m1: "(p1, r1, g1) \<in> set (matches a (q, s, h))" and
    m2: "(p, r, g) \<in> set (matches b (p1, r1, g1))"
    by auto
  from RSeq.IH(1)[OF m1] RSeq.IH(2)[OF m2] show ?case by auto
next
  case (RAlt a b)
  then show ?case by auto
next
  case (ROpt a)
  then show ?case by auto
next
  case (RRep lo hi P)
  then obtain j where "r = drop j s" by (auto simp: consume_def Let_def)
  then have "s = take j s @ r" by simp
  then show ?case by blast
next
  case RBound
  then show ?case by (auto split: if_splits)
next
  case (RGroup a)
  then show ?case by auto
qed

lemma matches_ansi_shorter:
  assumes "(p, r, g) \<in> set (matches ANSI_ESC (q, s, h))"
  shows "length r < length s"
proof -
  from assms obtain p1 r1 g1 where
    m1: "(p1, r1, g1) \<in> set (matches (RChar (\<lambda>c. c = ESC)) (q, s, h))" and
    m2: "(p, r, g) \<in> set (matches (RSeq (RChar (\<lambda>c. c = CHR ''[''))
            (RSeq (RRep 0 None is_ansi_param) (RChar is_ascii_letter))) (p1, r1, g1))"
    unfolding ANSI_ESC_def by auto
  from m1 have "length r1 < length s" by (cases s) (auto split: if_splits)
  moreover from matches_suffix[OF m2] have "length r \<le> length r1" by auto
  ultimately show ?thesis by simp
qed

lemma re_match_ansi_shorter:
  "re_match ANSI_ESC s = Some (m, r) \<Longrightarrow> length r < length s"
proof -
  assume a: "re_match ANSI_ESC s = Some (m, r)"
  then obtain p g ms where "matches ANSI_ESC (None, s, []) = (p, r, g) # ms"
    by (auto simp: re_match_def split: list.splits)
  then have "(p, r, g) \<in> set (matches ANSI_ESC (None, s, []))" by simp
  then show ?thesis by (rule matches_ansi_shorter)
qed

text \<open>The loop of \<open>_vis_trunc\<close> (lines 306-316): \<open>s\<close> is the text from index \<open>i\<close> on.\<close>

function vis_loop :: "string \<Rightarrow> int \<Rightarrow> int \<Rightarrow> string \<Rightarrow> string" where
  "vis_loop s width visible result =
     (if s = [] then result
      else case re_match ANSI_ESC s of
             Some (m, rest) \<Rightarrow> vis_loop rest width visible (result @ m)
           | None \<Rightarrow>
               if visible \<ge> width then result
               else vis_loop (tl s) width (visible + 1) (result @ [hd s]))"
  by pat_completeness auto
termination
  by (relation "measure (\<lambda>(s, w, v, r). length s)")
     (auto dest: re_match_ansi_shorter)

declare vis_loop.simps [simp del]

definition RST :: string where
  "RST = [ESC, CHR ''['', CHR ''0'', CHR ''m'']"

definition vis_trunc :: "string \<Rightarrow> int \<Rightarrow> string" where
  "vis_trunc s width =
     (let result = vis_loop s width 0 []
      in if ESC \<in> set result then result @ RST else result)"

section \<open>Device poll state and the poller\<close>

datatype status = Waiting | Formatting | Done | Failed

record DevState =
  path :: string
  sg_path :: string
  slot :: "int option"
  model :: string
  serial :: string
  status :: status
  ever_started :: bool
  progress :: fl
  eta :: string
  start :: fl
  prev_pct :: fl
  prev_time :: fl

text \<open>What one \<open>subprocess.run\<close> call does: it completes with the captured standard
  output and standard error, or it raises.\<close>

datatype run_result = Completed string string | Raises exn

text \<open>What one call of \<open>_poll\<close> leaves behind: the state object, the exception that left
  it (if any), the commands it ran and the lines it logged.\<close>

record poll_result =
  new_state :: DevState
  raised :: "exn option"
  invoked :: "string list list"
  logged :: "string list"

text \<open>The loop over the two commands (lines 345-353). Only \<open>TimeoutExpired\<close> is caught.\<close>

fun run_loop ::
  "(string list \<Rightarrow> run_result) \<Rightarrow> string list list \<Rightarrow> string list \<Rightarrow> string list list \<Rightarrow>
     exn option \<times> string list \<times> string list list" where
  "run_loop run [] outputs called = (None, outputs, called)"
| "run_loop run (cmd # cmds) outputs called =
     (case run cmd of
        Completed out err \<Rightarrow> run_loop run cmds (outputs @ [out @ err]) (called @ [cmd])
      | Raises e \<Rightarrow>
          if e = TimeoutExpired then run_loop run cmds outputs (called @ [cmd])
          else (Some e, outputs, called @ [cmd]))"

fun join :: "string \<Rightarrow> string list \<Rightarrow> string" where
  "join sep [] = []"
| "join sep [x] = x"
| "join sep (x # y # ys) = x @ sep @ join sep (y # ys)"

definition str_slot :: "int option \<Rightarrow> string" where
  "str_slot sl = (case sl of None \<Rightarrow> ''?'' | Some i \<Rightarrow> str_int i)"

definition log_line :: "string \<Rightarrow> DevState \<Rightarrow> string" where
  "log_line tag st =
     tag @ '' slot='' @ str_slot (slot st) @ '' dev='' @ path st @
     '' model='' @ model st @ '' serial='' @ serial st"

text \<open>Lines 361-368: the percentage of a text that has a progress marker.\<close>

definition extract_pct :: "string \<Rightarrow> exn + fl option" where
  "extract_pct output =
     (case re_search RE_PCT output of
        Some g \<Rightarrow> Inr (Some (py_float (g ! 0)))
      | None \<Rightarrow>
          (case re_search RE_RATIO output of
             Some g \<Rightarrow>
               (case fdiv (py_float (g ! 0)) (py_float (g ! 1)) of
                  Inl e \<Rightarrow> Inl e
                | Inr q \<Rightarrow> Inr (Some (fmul q (Fin 100))))
           | None \<Rightarrow> Inr None))"

text \<open>Line 376: the two divisions and the formatting can raise.\<close>

definition eta_of :: "fl \<Rightarrow> fl \<Rightarrow> fl \<Rightarrow> exn + string" where
  "eta_of pct dp dt =
     (if fless (Fin 0) dt \<and> fless (Fin 0) dp then
        (case fdiv dp dt of
           Inl e \<Rightarrow> Inl e
         | Inr rate \<Rightarrow>
             (case fdiv (fsub (Fin 100) pct) rate of
                Inl e \<Rightarrow> Inl e
              | Inr secs \<Rightarrow> fmt_duration secs))
      else Inr ''--'')"

text \<open>Lines 360-389: the state update from the joined output. \<open>now\<close> is what
  \<open>time.monotonic()\<close> returns at line 373. An exception raised at line 376 leaves the
  assignments of lines 370-371 done and those of lines 376-379 undone.\<close>

definition poll_update :: "fl \<Rightarrow> string \<Rightarrow> DevState \<Rightarrow> DevState \<times> exn option \<times> string list" where
  "poll_update now output st =
     (if re_search RE_PROGRESS output \<noteq> None then
        (case extract_pct output of
           Inl e \<Rightarrow> (st, Some e, [])
         | Inr pcto \<Rightarrow>
             (let st1 = st\<lparr>ever_started := True, status := Formatting\<rparr>
              in case pcto of
                   None \<Rightarrow> (st1, None, [])
                 | Some pct \<Rightarrow>
                     (let dt = fsub now (prev_time st1);
                          dp = fsub pct (prev_pct st1)
                      in case eta_of pct dp dt of
                           Inl e \<Rightarrow> (st1, Some e, [])
                         | Inr t \<Rightarrow>
                             (st1\<lparr>eta := t, prev_pct := pct, prev_time := now,
                                  progress := py_max (Fin 0) (py_min (Fin 100) pct)\<rparr>,
                              None, []))))
      else if re_search RE_ERROR output \<noteq> None then
        (st\<lparr>status := Failed, progress := Fin 0, eta := ''--''\<rparr>, None,
         [log_line ''FORMAT_FAILED'' st])
      else if ever_started st then
        (st\<lparr>status := Done, progress := Fin 100, eta := ''done''\<rparr>, None,
         [log_line ''FORMAT_COMPLETE'' st])
      else (st, None, []))"

text \<open>\<open>_poll\<close> (lines 340-389). \<open>run\<close> is what \<open>subprocess.run\<close> does for each command.\<close>

definition poll :: "(string list \<Rightarrow> run_result) \<Rightarrow> fl \<Rightarrow> DevState \<Rightarrow> poll_result" where
  "poll run now st =
     (if status st \<in> {Done, Failed} then
        \<lparr>new_state = st, raised = None, invoked = [], logged = []\<rparr>
      else
        (let poll_dev = sg_path st
         in case run_loop run [[''sg_requests'', poll_dev],
                              [''sg_requests'', ''--progress'', poll_dev]] [] [] of
              (Some e, outputs, called) \<Rightarrow>
                \<lparr>new_state = st, raised = Some e, invoked = called, logged = []\<rparr>
            | (None, outputs, called) \<Rightarrow>
                if outputs = [] then
                  \<lparr>new_state = st, raised = None, invoked = called, logged = []\<rparr>
                else
                  (case poll_update now (join [CHR 0x0A] outputs) st of
                     (st', e, lg) \<Rightarrow>
                       \<lparr>new_state = st', raised = e, invoked = called, logged = lg\<rparr>)))"

section \<open>The session's controls\<close>

record session =
  interval :: int
  paused :: bool
  last_poll :: fl

text \<open>Lines 393-395.\<close>

definition initial_session :: session where
  "initial_session = \<lparr>interval = 5, paused = False, last_poll = Fin 0\<rparr>"

text \<open>Lines 491-497: \<open>ch\<close> is what \<open>os.read(fd, 4)\<close> returned; \<open>None\<close> is the
  \<open>break\<close>.\<close>

definition handle_key :: "string \<Rightarrow> session \<Rightarrow> session option" where
  "handle_key ch ss =
     (let k = take 1 ch
      in if k \<in> set [''q'', ''Q'', [CHR 0x03], [CHR 0x1B]] then None
         else if k \<in> set [''p'', ''P''] then Some (ss\<lparr>paused := \<not> paused ss\<rparr>)
         else if k \<in> set [''r'', ''R''] then Some (ss\<lparr>last_poll := Fin 0\<rparr>)
         else if k = ''+'' then Some (ss\<lparr>interval := min 60 (interval ss + 1)\<rparr>)
         else if k = ''-'' then Some (ss\<lparr>interval := max 1 (interval ss - 1)\<rparr>)
         else Some ss)"

text \<open>\<open>x >= i\<close> for a float \<open>x\<close> and an integer \<open>i\<close>.\<close>

definition fge_int :: "fl \<Rightarrow> int \<Rightarrow> bool" where
  "fge_int x i = (case x of Fin q \<Rightarrow> of_int i \<le> q | PInf \<Rightarrow> True | _ \<Rightarrow> False)"

text \<open>One turn of the loop (lines 490-501) as far as the session's own variables go:
  the key that is waiting, if any, then the check whether a poll is due at time \<open>now\<close>.\<close>

definition loop_turn :: "string option \<times> fl \<Rightarrow> session \<Rightarrow> session option" where
  "loop_turn ev ss =
     (case (case fst ev of None \<Rightarrow> Some ss | Some ch \<Rightarrow> handle_key ch ss) of
        None \<Rightarrow> None
      | Some ss1 \<Rightarrow>
          Some (if \<not> paused ss1 \<and> fge_int (fsub (snd ev) (last_poll ss1)) (interval ss1)
                then ss1\<lparr>last_poll := snd ev\<rparr> else ss1))"

text \<open>The loop over a sequence of turns; it stops at the first \<open>break\<close>.\<close>

fun run_turns :: "(string option \<times> fl) list \<Rightarrow> session \<Rightarrow> session" where
  "run_turns [] ss = ss"
| "run_turns (ev # evs) ss =
     (case loop_turn ev ss of None \<Rightarrow> ss | Some ss' \<Rightarrow> run_turns evs ss')"

section \<open>Notions used to state the properties\<close>

text \<open>A text contains a progress marker, or an error keyword, when its lower-cased form
  contains the phrase.\<close>

definition has_progress_marker :: "string \<Rightarrow> bool" where
  "has_progress_marker text =
     (sublist ''progress indication'' (map lower text) \<or>
      sublist ''format in progress'' (map lower text))"

definition has_error_keyword :: "string \<Rightarrow> bool" where
  "has_error_keyword text =
     (sublist ''error'' (map lower text) \<or> sublist ''fail'' (map lower text))"

text \<open>The two commands of a poll round, and the text the round evaluates: the captured
  outputs joined by a newline, when no exception left the loop and at least one command
  completed.\<close>

definition poll_cmds :: "DevState \<Rightarrow> string list list" where
  "poll_cmds st = [[''sg_requests'', sg_path st], [''sg_requests'', ''--progress'', sg_path st]]"

definition round_text :: "(string list \<Rightarrow> run_result) \<Rightarrow> DevState \<Rightarrow> string option" where
  "round_text run st =
     (case run_loop run (poll_cmds st) [] [] of
        (Some e, outputs, called) \<Rightarrow> None
      | (None, outputs, called) \<Rightarrow>
          if outputs = [] then None else Some (join [CHR 0x0A] outputs))"

definition terminal :: "DevState \<Rightarrow> bool" where
  "terminal st = (status st = Done \<or> status st = Failed)"

text \<open>Two concrete device states: one in the middle of a format, one not yet started.\<close>

definition example_state :: DevState where
  "example_state = \<lparr>path = ''/dev/sda'', sg_path = ''/dev/sg0'', slot = Some 2, model = ''M'',
     serial = ''S'', status = Formatting, ever_started = True, progress = Fin 50,
     eta = ''--'', start = Fin 0, prev_pct = Fin 50, prev_time = Fin 10\<rparr>"

definition waiting_state :: DevState where
  "waiting_state = example_state\<lparr>status := Waiting, ever_started := False,
     progress := Fin 0, prev_pct := Fin 0\<rparr>"

text \<open>An output reporting a percentage of \<open>5e-324\<close>, the least positive float.\<close>

definition tiny_pct_text :: string where
  "tiny_pct_text = ''format in progress 0.'' @ replicate 323 CHR ''0'' @ ''5%''"

text \<open>The tokens of a text, scanned as \<open>_vis_trunc\<close> scans it: a control sequence where
  \<open>_ANSI_ESC\<close> matches (marked \<open>True\<close>), a single visible character elsewhere. The visible
  length of a text is the number of its visible tokens; a text contains a control sequence
  when \<open>_ANSI_ESC\<close> matches somewhere in it.\<close>

function tokens :: "string \<Rightarrow> (bool \<times> string) list" where
  "tokens s =
     (if s = [] then []
      else case re_match ANSI_ESC s of
             Some (m, rest) \<Rightarrow> (True, m) # tokens rest
           | None \<Rightarrow> (False, [hd s]) # tokens (tl s))"
  by pat_completeness auto
termination
  by (relation "measure length") (auto dest: re_match_ansi_shorter)

declare tokens.simps [simp del]

definition visible_len :: "string \<Rightarrow> nat" where
  "visible_len s = length (filter (\<lambda>t. \<not> fst t) (tokens s))"

definition has_control_sequence :: "string \<Rightarrow> bool" where
  "has_control_sequence s = (re_search ANSI_ESC s \<noteq> None)"

text \<open>A line with two colour sequences.\<close>

definition coloured_line :: string where
  "coloured_line = ESC # ''[32mhello'' @ ESC # ''[0m world''"

text \<open>Two descriptions used in the proofs: what the loop of \<open>_vis_trunc\<close> appends to its
  accumulator, and the match of \<open>_ANSI_ESC\<close> at the head of a text, written out.\<close>

function vis_body :: "string \<Rightarrow> int \<Rightarrow> int \<Rightarrow> string" where
  "vis_body s width visible =
     (if s = [] then []
      else case re_match ANSI_ESC s of
             Some (m, rest) \<Rightarrow> m @ vis_body rest width visible
           | None \<Rightarrow>
               if visible \<ge> width then []
               else hd s # vis_body (tl s) width (visible + 1))"
  by pat_completeness auto
termination
  by (relation "measure (\<lambda>(s, w, v). length s)") (auto dest: re_match_ansi_shorter)

declare vis_body.simps [simp del]

definition ansi_at :: "string \<Rightarrow> (string \<times> string) option" where
  "ansi_at s =
     (case s of
        e # b # r \<Rightarrow>
          if e = ESC \<and> b = CHR ''['' then
            (case dropWhile is_ansi_param r of
               c # r' \<Rightarrow>
                 if is_ascii_letter c
                 then Some (ESC # CHR ''['' # takeWhile is_ansi_param r @ [c], r')
                 else None
             | [] \<Rightarrow> None)
          else None
      | _ \<Rightarrow> None)"

section \<open>Properties\<close>

subsection \<open>Rounding to a float\<close>

lemma ilog2_le:
  assumes "0 < q"
  shows "pow2 (ilog2 q) \<le> q"
proof -
  obtain a b where ab: "quotient_of q = (a, b)" by force
  have b: "0 < b" using quotient_of_denom_pos[OF ab] .
  have q: "q = of_int a / of_int b" using quotient_of_div[OF ab] .
  have a: "0 < a" using assms q b by (simp add: zero_less_divide_iff)
  have la: "1 \<le> bitlen a" and lb: "1 \<le> bitlen b"
    using a b by (simp_all add: bitlen_alt_def)
  from bitlen_bounds[OF a] have "2 ^ nat (bitlen a - 1) \<le> a" by simp
  then have "(of_int (2 ^ nat (bitlen a - 1)) :: rat) \<le> of_int a" by (simp only: of_int_le_iff)
  then have pa: "pow2 (bitlen a - 1) \<le> of_int a"
    using la by (simp add: pow2_def power_int_nonneg_exp)
  from bitlen_bounds[OF b] have "b \<le> 2 ^ nat (bitlen b)" by simp
  then have "(of_int b :: rat) \<le> of_int (2 ^ nat (bitlen b))" by (simp only: of_int_le_iff)
  then have pb: "of_int b \<le> pow2 (bitlen b)"
    using lb by (simp add: pow2_def power_int_nonneg_exp)
  have "pow2 (bitlen a - bitlen b - 1) = pow2 (bitlen a - 1) / pow2 (bitlen b)"
    using power_int_diff[of "2::rat" "bitlen a - 1" "bitlen b"] by (simp add: pow2_def algebra_simps)
  also have "\<dots> \<le> of_int a / of_int b"
    using pa pb a b by (intro frac_le) (simp_all add: pow2_def)
  finally have low: "pow2 (bitlen a - bitlen b - 1) \<le> q" using q by simp
  show ?thesis using low by (simp add: ilog2_def ab Let_def)
qed

lemma pow2_pos: "0 < pow2 k"
  by (simp add: pow2_def)

lemma pow2_add: "pow2 (j + k) = pow2 j * pow2 k"
  by (simp add: pow2_def power_int_add)

lemma pow2_less_iff: "pow2 j < pow2 k \<longleftrightarrow> j < k"
proof
  assume l: "pow2 j < pow2 k"
  show "j < k"
  proof (rule ccontr)
    assume "\<not> j < k"
    then have "k \<le> j" by simp
    then have "pow2 k \<le> pow2 j" unfolding pow2_def by (intro power_int_increasing) simp_all
    with l show False by simp
  qed
next
  assume "j < k"
  then show "pow2 j < pow2 k" unfolding pow2_def by (intro power_int_strict_increasing) simp_all
qed

lemma pow2_le_iff: "pow2 j \<le> pow2 k \<longleftrightarrow> j \<le> k"
  using pow2_less_iff[of k j] by (simp add: not_less[symmetric])

lemma pow2_nonneg_int: "0 \<le> k \<Longrightarrow> pow2 k = of_int (2 ^ nat k)"
  by (simp add: pow2_def power_int_nonneg_exp)

lemma rne_of_int: "rne (of_int n) = n"
  by (simp add: rne_def)

lemma round64_representable:
  assumes q: "q = of_int m * pow2 k" and m: "\<bar>m\<bar> < 2 ^ 53" and k: "- 1074 \<le> k"
    and r: "\<bar>q\<bar> < pow2 1024"
  shows "round64 q = Fin q"
proof (cases "q = 0")
  case True
  then show ?thesis by (simp add: round64_def)
next
  case False
  define a where "a = \<bar>q\<bar>"
  have a0: "0 < a" using False by (simp add: a_def)
  have am: "a = of_int \<bar>m\<bar> * pow2 k"
    using q pow2_pos[of k] by (simp add: a_def abs_mult)
  define kk where "kk = (if a < pow2 (- 1022) then - 1074 else ilog2 a - 52)"
  have kk: "kk \<le> k"
  proof (cases "a < pow2 (- 1022)")
    case True
    then show ?thesis using k by (simp add: kk_def)
  next
    case False
    have "(of_int \<bar>m\<bar> :: rat) < of_int (2 ^ 53)" using m by (simp only: of_int_less_iff)
    then have "(of_int \<bar>m\<bar> :: rat) < pow2 53" by (simp add: pow2_def)
    then have "a < pow2 53 * pow2 k" using am pow2_pos[of k] by simp
    then have "a < pow2 (53 + k)" by (simp add: pow2_add)
    with ilog2_le[OF a0] have "pow2 (ilog2 a) < pow2 (53 + k)" by simp
    then have "ilog2 a < 53 + k" by (simp only: pow2_less_iff)
    with False show ?thesis by (simp add: kk_def)
  qed
  have "pow2 k = pow2 (k - kk) * pow2 kk" using pow2_add[of "k - kk" kk] by simp
  then have "a / pow2 kk = of_int \<bar>m\<bar> * pow2 (k - kk)"
    using am pow2_pos[of kk] by simp
  also have "\<dots> = of_int (\<bar>m\<bar> * 2 ^ nat (k - kk))"
    using kk by (simp add: pow2_nonneg_int)
  finally have "rne (a / pow2 kk) = \<bar>m\<bar> * 2 ^ nat (k - kk)" by (simp only: rne_of_int)
  then have "of_int (rne (a / pow2 kk)) * pow2 kk = of_int \<bar>m\<bar> * pow2 (k - kk) * pow2 kk"
    using kk by (simp add: pow2_nonneg_int)
  also have "\<dots> = a" using am pow2_add[of "k - kk" kk] by simp
  finally have v: "of_int (rne (a / pow2 kk)) * pow2 kk = a" .
  have r': "\<not> pow2 1024 \<le> a" using r by (simp add: a_def)
  have a0': "a \<noteq> 0" using a0 by simp
  have "round64 q = Fin (if 0 < q then a else - a)"
    unfolding round64_def Let_def a_def[symmetric] kk_def[symmetric] v
    using a0' r' by simp
  then show ?thesis by (simp add: a_def)
qed

lemma round64_dyadic:
  assumes "q = of_int m * pow2 k" and "\<bar>m\<bar> < 2 ^ 53" and "- 1074 \<le> k" and "k \<le> 0"
  shows "round64 q = Fin q"
proof (rule round64_representable[OF assms(1) assms(2) assms(3)])
  have "pow2 k \<le> pow2 0" using assms(4) by (simp only: pow2_le_iff)
  then have "pow2 k \<le> 1" by (simp add: pow2_def)
  then have "\<bar>q\<bar> \<le> of_int \<bar>m\<bar>"
    using assms(1) pow2_pos[of k] by (simp add: abs_mult mult_left_le)
  also have "(of_int \<bar>m\<bar> :: rat) < of_int (2 ^ 53)" using assms(2) by (simp only: of_int_less_iff)
  also have "(of_int (2 ^ 53) :: rat) = pow2 53" by (simp add: pow2_def)
  also have "pow2 53 < pow2 1024" by (simp add: pow2_less_iff)
  finally show "\<bar>q\<bar> < pow2 1024" .
qed

lemma round64_tiny:
  assumes "0 \<le> q" and "q \<le> pow2 (- 1075)"
  shows "round64 q = Fin 0"
proof (cases "q = 0")
  case True
  then show ?thesis by (simp add: round64_def)
next
  case False
  have h: "pow2 (- 1075) = pow2 (- 1074) * (1 / 2)"
    using pow2_add[of "- 1074" "- 1"] by (simp add: pow2_def)
  have l: "pow2 (- 1075) < pow2 (- 1022)" "pow2 (- 1022) < pow2 1024"
    by (simp_all add: pow2_less_iff)
  have x: "q / pow2 (- 1074) \<le> 1 / 2" "0 < q / pow2 (- 1074)"
    using assms False h pow2_pos[of "- 1074"] by (simp_all add: field_simps)
  have "rne (q / pow2 (- 1074)) = 0"
  proof -
    have f: "\<lfloor>q / pow2 (- 1074)\<rfloor> = 0"
      by (rule floor_unique) (use x in linarith)+
    show ?thesis using x by (simp add: rne_def f Let_def)
  qed
  then show ?thesis
    using assms False l pow2_pos[of 1024] by (simp add: round64_def Let_def)
qed

lemma round64_least:
  assumes "pow2 (- 1075) < q" and "q < 3 * pow2 (- 1075)"
  shows "round64 q = Fin (pow2 (- 1074))"
proof -
  have h: "pow2 (- 1075) = pow2 (- 1074) * (1 / 2)"
    using pow2_add[of "- 1074" "- 1"] by (simp add: pow2_def)
  have q0: "0 < q" using assms(1) pow2_pos[of "- 1075"] by linarith
  have l: "pow2 (- 1074) < pow2 (- 1022)" "pow2 (- 1074) < pow2 1024"
    by (simp_all add: pow2_less_iff)
  have "q < 2 * pow2 (- 1074)" using assms(2) h pow2_pos[of "- 1074"] by simp
  also have "\<dots> = pow2 (- 1073)" using pow2_add[of 1 "- 1074"] by (simp add: pow2_def)
  also have "\<dots> < pow2 (- 1022)" by (simp add: pow2_less_iff)
  finally have s: "q < pow2 (- 1022)" .
  have b: "q < pow2 1024" using s pow2_less_iff[of "- 1022" 1024] by simp
  define x where "x = q / pow2 (- 1074)"
  have x: "1 / 2 < x" "x < 3 / 2"
    using assms h pow2_pos[of "- 1074"] by (simp_all add: x_def field_simps)
  have "rne x = 1"
  proof (cases "x < 1")
    case True
    have "\<lfloor>x\<rfloor> = 0" by (rule floor_unique) (use x True in linarith)+
    then show ?thesis using x by (simp add: rne_def Let_def)
  next
    case False
    have "\<lfloor>x\<rfloor> = 1" by (rule floor_unique) (use x False in linarith)+
    then show ?thesis using x by (simp add: rne_def Let_def)
  qed
  then show ?thesis
    using q0 s b l unfolding round64_def Let_def x_def by simp
qed

subsection \<open>The marker patterns find exactly the phrases, whatever the case\<close>

lemma matches_lit_i:
  "matches (lit_i w) (p, s, g) \<noteq> [] \<longleftrightarrow> prefix (map lower w) (map lower s)"
proof (induction w arbitrary: p s g)
  case Nil
  then show ?case by simp
next
  case (Cons x xs)
  show ?case
  proof (cases s)
    case Nil
    then show ?thesis by simp
  next
    case (Cons c cs)
    then show ?thesis using Cons.IH[of "Some c" cs g] by auto
  qed
qed

lemma search_alt_lit_i:
  "search_from (RAlt (lit_i a) (lit_i b)) p s \<noteq> None \<longleftrightarrow>
     (\<exists>ps t. s = ps @ t \<and>
        (prefix (map lower a) (map lower t) \<or> prefix (map lower b) (map lower t)))"
proof (induction s arbitrary: p)
  case Nil
  have "matches (RAlt (lit_i a) (lit_i b)) (p, [], []) \<noteq> [] \<longleftrightarrow>
        (prefix (map lower a) (map lower []) \<or> prefix (map lower b) (map lower []))"
    using matches_lit_i[of a p "[]" "[]"] matches_lit_i[of b p "[]" "[]"] by simp
  then show ?case by (auto split: list.splits)
next
  case (Cons c cs)
  have m: "matches (RAlt (lit_i a) (lit_i b)) (p, c # cs, []) \<noteq> [] \<longleftrightarrow>
        (prefix (map lower a) (map lower (c # cs)) \<or> prefix (map lower b) (map lower (c # cs)))"
    using matches_lit_i[of a p "c # cs" "[]"] matches_lit_i[of b p "c # cs" "[]"] by simp
  show ?case
  proof (cases "matches (RAlt (lit_i a) (lit_i b)) (p, c # cs, [])")
    case Nil
    with m have no: "\<not> prefix (map lower a) (map lower (c # cs))"
      "\<not> prefix (map lower b) (map lower (c # cs))" by auto
    have "search_from (RAlt (lit_i a) (lit_i b)) p (c # cs) =
          search_from (RAlt (lit_i a) (lit_i b)) (Some c) cs"
      using Nil by simp
    also have "\<dots> \<noteq> None \<longleftrightarrow> (\<exists>ps t. cs = ps @ t \<and>
        (prefix (map lower a) (map lower t) \<or> prefix (map lower b) (map lower t)))"
      by (rule Cons.IH)
    also have "\<dots> \<longleftrightarrow> (\<exists>ps t. c # cs = ps @ t \<and>
        (prefix (map lower a) (map lower t) \<or> prefix (map lower b) (map lower t)))"
    proof
      assume "\<exists>ps t. cs = ps @ t \<and>
        (prefix (map lower a) (map lower t) \<or> prefix (map lower b) (map lower t))"
      then obtain ps t where "cs = ps @ t" and
        pt: "prefix (map lower a) (map lower t) \<or> prefix (map lower b) (map lower t)" by blast
      then have "c # cs = (c # ps) @ t" by simp
      with pt show "\<exists>ps t. c # cs = ps @ t \<and>
        (prefix (map lower a) (map lower t) \<or> prefix (map lower b) (map lower t))" by blast
    next
      assume "\<exists>ps t. c # cs = ps @ t \<and>
        (prefix (map lower a) (map lower t) \<or> prefix (map lower b) (map lower t))"
      then obtain ps t where e: "c # cs = ps @ t" and
        pt: "prefix (map lower a) (map lower t) \<or> prefix (map lower b) (map lower t)" by blast
      show "\<exists>ps t. cs = ps @ t \<and>
        (prefix (map lower a) (map lower t) \<or> prefix (map lower b) (map lower t))"
      proof (cases ps)
        case Nil
        with e pt no show ?thesis by auto
      next
        case (Cons d ds)
        with e have "cs = ds @ t" by simp
        with pt show ?thesis by blast
      qed
    qed
    finally show ?thesis .
  next
    case (Cons m1 ms)
    then have "search_from (RAlt (lit_i a) (lit_i b)) p (c # cs) \<noteq> None"
      by (auto split: prod.splits)
    moreover from Cons m have "prefix (map lower a) (map lower (c # cs)) \<or>
         prefix (map lower b) (map lower (c # cs))" by auto
    then have "\<exists>ps t. c # cs = ps @ t \<and>
        (prefix (map lower a) (map lower t) \<or> prefix (map lower b) (map lower t))"
      by (intro exI[of _ "[]"] exI[of _ "c # cs"]) simp
    ultimately show ?thesis by blast
  qed
qed

lemma ex_prefix_sublist:
  "(\<exists>ps t. s = ps @ t \<and> prefix w (map f t)) \<longleftrightarrow> sublist w (map f s)"
proof
  assume "\<exists>ps t. s = ps @ t \<and> prefix w (map f t)"
  then obtain ps t ss where "s = ps @ t" "map f t = w @ ss" by (auto simp: prefix_def)
  then have "map f s = map f ps @ w @ ss" by simp
  then show "sublist w (map f s)" unfolding sublist_def by blast
next
  assume "sublist w (map f s)"
  then obtain ps' ss' where e: "map f s = ps' @ w @ ss'" unfolding sublist_def by blast
  let ?n = "length ps'"
  have "s = take ?n s @ drop ?n s" by simp
  moreover have "map f (drop ?n s) = w @ ss'"
    using e by (simp add: drop_map[symmetric])
  then have "prefix w (map f (drop ?n s))" by (simp add: prefix_def)
  ultimately show "\<exists>ps t. s = ps @ t \<and> prefix w (map f t)" by blast
qed

lemma lower_progress_literals:
  "map lower ''progress indication'' = ''progress indication''"
  "map lower ''format in progress'' = ''format in progress''"
  "map lower ''error'' = ''error''"
  "map lower ''fail'' = ''fail''"
  by (simp_all add: lower_def ascii_upper_def ascii_lower_def)

lemma search_progress_iff:
  "re_search RE_PROGRESS text \<noteq> None \<longleftrightarrow> has_progress_marker text"
  unfolding re_search_def RE_PROGRESS_def has_progress_marker_def search_alt_lit_i
    lower_progress_literals ex_prefix_sublist[symmetric]
  by blast

lemma search_error_iff:
  "re_search RE_ERROR text \<noteq> None \<longleftrightarrow> has_error_keyword text"
  unfolding re_search_def RE_ERROR_def has_error_keyword_def search_alt_lit_i
    lower_progress_literals ex_prefix_sublist[symmetric]
  by blast

subsection \<open>Truncation to a visible width\<close>

lemma param_not_letter: "is_ansi_param c \<Longrightarrow> \<not> is_ascii_letter c"
  by (auto simp: is_ansi_param_def is_digit_def is_ascii_letter_def ascii_upper_def ascii_lower_def)

lemma ESC_not_param: "\<not> is_ansi_param ESC" "\<not> is_ascii_letter ESC" "ESC \<noteq> CHR ''[''"
  by (auto simp: ESC_def is_ansi_param_def is_digit_def is_ascii_letter_def ascii_upper_def ascii_lower_def)

lemma rep_then_char:
  assumes "\<And>c. P c \<Longrightarrow> \<not> L c"
  shows "matches (RSeq (RRep 0 None P) (RChar L)) (p, r, g) =
     (case dropWhile P r of
        c # r' \<Rightarrow> if L c then [(Some c, r', g)] else []
      | [] \<Rightarrow> [])"
proof -
  let ?n = "length (takeWhile P r)"
  have shorter: "matches (RChar L) (consume j (p, r, g)) = []" if "j < ?n" for j
  proof -
    from that have "j < length r" using length_takeWhile_le[of P r] by simp
    then have d: "drop j r = r ! j # drop (Suc j) r" by (simp add: Cons_nth_drop_Suc)
    have "P (r ! j)" using that
      by (metis nth_mem set_takeWhileD takeWhile_nth)
    with assms have "\<not> L (r ! j)" by simp
    with d show ?thesis by (simp add: consume_def)
  qed
  have "concat (map (matches (RChar L)) (map (\<lambda>j. consume j (p, r, g)) (rev [0..<?n]))) = []"
    using shorter by (auto simp: concat_eq_Nil_conv)
  moreover have "drop ?n r = dropWhile P r"
    by (simp add: dropWhile_eq_drop)
  then have "matches (RChar L) (consume ?n (p, r, g)) =
     (case dropWhile P r of
        c # r' \<Rightarrow> if L c then [(Some c, r', g)] else []
      | [] \<Rightarrow> [])"
    by (auto simp: consume_def split: list.splits)
  moreover have "matches (RSeq (RRep 0 None P) (RChar L)) (p, r, g) =
     matches (RChar L) (consume ?n (p, r, g)) @
     concat (map (matches (RChar L)) (map (\<lambda>j. consume j (p, r, g)) (rev [0..<?n])))"
    by (simp add: Let_def)
  ultimately show ?thesis by (simp only: append_Nil2)
qed

lemma re_match_ansi: "re_match ANSI_ESC s = ansi_at s"
proof (cases s)
  case Nil
  then show ?thesis by (simp add: re_match_def ANSI_ESC_def ansi_at_def)
next
  case (Cons e s1)
  show ?thesis
  proof (cases s1)
    case Nil
    with Cons show ?thesis by (simp add: re_match_def ANSI_ESC_def ansi_at_def)
  next
    case (Cons b r)
    note rc = rep_then_char[of is_ansi_param is_ascii_letter, OF param_not_letter]
    have tw: "length (takeWhile is_ansi_param r) + length (dropWhile is_ansi_param r) = length r"
      by (metis length_append takeWhile_dropWhile_id)
    show ?thesis
    proof (cases "e = ESC \<and> b = CHR ''[''")
      case False
      with Cons \<open>s = e # s1\<close> show ?thesis
        by (auto simp: re_match_def ANSI_ESC_def ansi_at_def)
    next
      case True
      have "matches ANSI_ESC (None, s, []) =
            matches (RSeq (RRep 0 None is_ansi_param) (RChar is_ascii_letter)) (Some b, r, [])"
        using True Cons \<open>s = e # s1\<close> unfolding ANSI_ESC_def by simp
      also have "\<dots> = (case dropWhile is_ansi_param r of
          c # r' \<Rightarrow> if is_ascii_letter c then [(Some c, r', [])] else []
        | [] \<Rightarrow> [])" by (rule rc)
      finally have m: "matches ANSI_ESC (None, s, []) = (case dropWhile is_ansi_param r of
          c # r' \<Rightarrow> if is_ascii_letter c then [(Some c, r', [])] else []
        | [] \<Rightarrow> [])" .
      show ?thesis
      proof (cases "dropWhile is_ansi_param r")
        case Nil
        with m True \<open>s1 = b # r\<close> \<open>s = e # s1\<close> show ?thesis
          by (simp add: re_match_def ansi_at_def del: dropWhile_eq_Nil_conv)
      next
        case (Cons c r')
        have "r = takeWhile is_ansi_param r @ c # r'"
          using Cons by (metis takeWhile_dropWhile_id)
        then have "take (length r - length r') r = takeWhile is_ansi_param r @ [c]"
          by (metis (no_types, lifting) Cons append.assoc append_Cons append_Nil
              append_eq_conv_conj diff_add_inverse2 length_append)
        with m True Cons \<open>s1 = b # r\<close> \<open>s = e # s1\<close> tw show ?thesis
          by (simp add: re_match_def ansi_at_def Suc_diff_le)
      qed
    qed
  qed
qed

lemma ansi_at_split:
  "ansi_at s = Some (m, r) \<Longrightarrow> s = m @ r \<and> m \<noteq> [] \<and> ESC \<in> set m"
  by (auto simp: ansi_at_def split: list.splits if_splits)
     (metis takeWhile_dropWhile_id)

lemma ansi_at_append:
  assumes "ansi_at s = Some (m, r)"
  shows "ansi_at (s @ t) = Some (m, r @ t)"
proof -
  from assms obtain ps c where
    s: "s = ESC # CHR ''['' # ps" and d: "dropWhile is_ansi_param ps = c # r" and
    l: "is_ascii_letter c" and m: "m = ESC # CHR ''['' # takeWhile is_ansi_param ps @ [c]"
    by (auto simp: ansi_at_def split: list.splits if_splits)
  from d obtain x where x: "x \<in> set ps" "\<not> is_ansi_param x"
    by (metis dropWhile_eq_Nil_conv list.distinct(1))
  have "dropWhile is_ansi_param (ps @ t) = c # r @ t"
    using dropWhile_append1[of x ps is_ansi_param t] x d by simp
  moreover have "takeWhile is_ansi_param (ps @ t) = takeWhile is_ansi_param ps"
    using takeWhile_append1[of x ps is_ansi_param t] x by simp
  ultimately show ?thesis using s l m by (simp add: ansi_at_def)
qed

lemma ansi_at_self:
  assumes "ansi_at s = Some (m, r)"
  shows "ansi_at (m @ x) = Some (m, x)"
proof -
  from assms obtain ps c where
    s: "s = ESC # CHR ''['' # ps" and d: "dropWhile is_ansi_param ps = c # r" and
    l: "is_ascii_letter c" and m: "m = ESC # CHR ''['' # takeWhile is_ansi_param ps @ [c]"
    by (auto simp: ansi_at_def split: list.splits if_splits)
  have np: "\<not> is_ansi_param c" using d by (metis hd_dropWhile list.sel(1) list.distinct(1))
  have al: "\<forall>y\<in>set (takeWhile is_ansi_param ps). is_ansi_param y"
    by (auto dest: set_takeWhileD)
  have "dropWhile is_ansi_param (takeWhile is_ansi_param ps @ c # x) = c # x"
    using al np by (simp add: dropWhile_append2)
  moreover have "takeWhile is_ansi_param (takeWhile is_ansi_param ps @ c # x) =
      takeWhile is_ansi_param ps"
    using al np by (simp add: takeWhile_append2)
  ultimately show ?thesis using l m by (simp add: ansi_at_def)
qed

lemma ansi_at_prefix_None:
  assumes "ansi_at s = None" and "prefix p s"
  shows "ansi_at p = None"
proof (rule ccontr)
  assume "ansi_at p \<noteq> None"
  then obtain m r where "ansi_at p = Some (m, r)" by auto
  moreover from assms(2) obtain x where "s = p @ x" by (auto simp: prefix_def)
  ultimately have "ansi_at s = Some (m, r @ x)" using ansi_at_append by simp
  with assms(1) show False by simp
qed

lemma ansi_at_ESC_None:
  assumes "ansi_at p = None" and "p \<noteq> []"
  shows "ansi_at (p @ ESC # t) = None"
proof (cases p)
  case Nil
  with assms show ?thesis by simp
next
  case (Cons e p1)
  show ?thesis
  proof (cases p1)
    case Nil
    with Cons show ?thesis using ESC_not_param by (simp add: ansi_at_def)
  next
    case (Cons b ps)
    show ?thesis
    proof (cases "e = ESC \<and> b = CHR ''[''")
      case False
      with Cons \<open>p = e # p1\<close> show ?thesis by (auto simp: ansi_at_def)
    next
      case True
      show ?thesis
      proof (cases "dropWhile is_ansi_param ps")
        case Nil
        then have "dropWhile is_ansi_param (ps @ ESC # t) = ESC # t"
          using ESC_not_param by (simp add: dropWhile_append2)
        with True Cons \<open>p = e # p1\<close> ESC_not_param show ?thesis
          by (simp add: ansi_at_def)
      next
        case (Cons c r)
        then obtain x where x: "x \<in> set ps" "\<not> is_ansi_param x"
          by (metis dropWhile_eq_Nil_conv list.distinct(1))
        have "dropWhile is_ansi_param (ps @ ESC # t) = c # r @ ESC # t"
          using dropWhile_append1[of x ps is_ansi_param "ESC # t"] x Cons by simp
        moreover have "\<not> is_ascii_letter c"
          using assms(1) True Cons \<open>p1 = b # ps\<close> \<open>p = e # p1\<close>
          by (auto simp: ansi_at_def split: if_splits)
        ultimately show ?thesis using True \<open>p1 = b # ps\<close> \<open>p = e # p1\<close>
          by (simp add: ansi_at_def)
      qed
    qed
  qed
qed

lemma vis_loop_body: "vis_loop s w v acc = acc @ vis_body s w v"
proof (induction s w v acc rule: vis_loop.induct)
  case (1 s width visible result)
  show ?case
  proof (cases "s = []")
    case True
    then show ?thesis by (simp add: vis_loop.simps vis_body.simps)
  next
    case False
    show ?thesis
    proof (cases "re_match ANSI_ESC s")
      case None
      with False "1.IH" show ?thesis
        by (subst vis_loop.simps, subst vis_body.simps) simp
    next
      case (Some mr)
      obtain m r where "mr = (m, r)" by (cases mr)
      with Some False "1.IH" show ?thesis
        by (subst vis_loop.simps, subst vis_body.simps) simp
    qed
  qed
qed

lemma vis_body_prefix: "prefix (vis_body s w v) s"
proof (induction s w v rule: vis_body.induct)
  case (1 s width visible)
  show ?case
  proof (cases "s = []")
    case True
    then show ?thesis by (simp add: vis_body.simps)
  next
    case False
    show ?thesis
    proof (cases "re_match ANSI_ESC s")
      case None
      with False "1.IH" show ?thesis
        by (subst vis_body.simps) (cases s; simp)
    next
      case (Some mr)
      obtain m r where mr: "mr = (m, r)" by (cases mr)
      with Some have "s = m @ r" using ansi_at_split[of s m r] by (simp add: re_match_ansi)
      with Some False "1.IH" mr show ?thesis
        by (subst vis_body.simps) simp
    qed
  qed
qed

lemma visible_len_Nil: "visible_len [] = 0"
  by (simp add: visible_len_def tokens.simps)

lemma visible_len_body:
  assumes "t = [] \<or> (\<exists>t'. t = ESC # t')"
  shows "int (visible_len (vis_body s w v @ t)) \<le> max 0 (w - v) + int (visible_len t)"
proof (induction s w v rule: vis_body.induct)
  case (1 s width visible)
  show ?case
  proof (cases "s = []")
    case True
    then show ?thesis by (simp add: vis_body.simps)
  next
    case False
    show ?thesis
    proof (cases "re_match ANSI_ESC s")
      case (Some mr)
      obtain m r where mr: "mr = (m, r)" by (cases mr)
      with Some have a: "ansi_at s = Some (m, r)" by (simp add: re_match_ansi)
      then have s: "s = m @ r" "m \<noteq> []" using ansi_at_split by auto
      let ?x = "vis_body r width visible @ t"
      have "ansi_at (m @ ?x) = Some (m, ?x)" by (rule ansi_at_self[OF a])
      then have "tokens (m @ ?x) = (True, m) # tokens ?x"
        using s(2) by (subst tokens.simps) (simp add: re_match_ansi)
      then have "visible_len (m @ ?x) = visible_len ?x" by (simp add: visible_len_def)
      moreover have "vis_body s width visible = m @ vis_body r width visible"
        using Some False mr by (subst vis_body.simps) simp
      ultimately show ?thesis using "1.IH" False Some mr by simp
    next
      case None
      show ?thesis
      proof (cases "visible \<ge> width")
        case True
        with None False show ?thesis by (simp add: vis_body.simps)
      next
        case lt: False
        obtain c cs where s: "s = c # cs" using False by (cases s) auto
        let ?b = "vis_body cs width (visible + 1)"
        have vb: "vis_body s width visible = c # ?b"
          using None False lt s by (subst vis_body.simps) simp
        have pre: "prefix (c # ?b) s" using vis_body_prefix[of cs width "visible + 1"] s by simp
        from None have "ansi_at s = None" by (simp add: re_match_ansi)
        from ansi_at_prefix_None[OF this pre] have n: "ansi_at (c # ?b) = None" .
        have "ansi_at (c # ?b @ t) = None"
        proof (cases "t = []")
          case True
          with n show ?thesis by simp
        next
          case False
          with assms obtain t' where "t = ESC # t'" by auto
          with ansi_at_ESC_None[OF n, of t'] show ?thesis by simp
        qed
        then have "tokens (c # ?b @ t) = (False, [c]) # tokens (?b @ t)"
          by (subst tokens.simps) (simp add: re_match_ansi)
        then have "visible_len (c # ?b @ t) = Suc (visible_len (?b @ t))"
          by (simp add: visible_len_def)
        moreover have "int (visible_len (?b @ t)) \<le> max 0 (width - (visible + 1)) + int (visible_len t)"
          using "1.IH" False None lt s by simp
        ultimately show ?thesis using vb lt by simp
      qed
    qed
  qed
qed

lemma tokens_concat: "concat (map snd (tokens s)) = s"
proof (induction s rule: tokens.induct)
  case (1 s)
  show ?case
  proof (cases "s = []")
    case True
    then show ?thesis by (simp add: tokens.simps)
  next
    case False
    show ?thesis
    proof (cases "re_match ANSI_ESC s")
      case None
      with False "1.IH" show ?thesis by (subst tokens.simps) simp
    next
      case (Some mr)
      obtain m r where mr: "mr = (m, r)" by (cases mr)
      with Some have "s = m @ r" using ansi_at_split[of s m r] by (simp add: re_match_ansi)
      with Some False "1.IH" mr show ?thesis by (subst tokens.simps) simp
    qed
  qed
qed

lemma vis_body_tokens: "\<exists>k. vis_body s w v = concat (map snd (take k (tokens s)))"
proof (induction s w v rule: vis_body.induct)
  case (1 s width visible)
  show ?case
  proof (cases "s = []")
    case True
    then have "vis_body s width visible = concat (map snd (take 0 (tokens s)))"
      by (simp add: vis_body.simps)
    then show ?thesis by blast
  next
    case False
    show ?thesis
    proof (cases "re_match ANSI_ESC s")
      case (Some mr)
      obtain m r where mr: "mr = (m, r)" by (cases mr)
      from "1.IH"(2)[OF False Some mr[symmetric]] obtain k where
        k: "vis_body r width visible = concat (map snd (take k (tokens r)))" by blast
      have "tokens s = (True, m) # tokens r"
        using Some False mr by (subst tokens.simps) simp
      moreover have "vis_body s width visible = m @ vis_body r width visible"
        using Some False mr by (subst vis_body.simps) simp
      ultimately have "vis_body s width visible = concat (map snd (take (Suc k) (tokens s)))"
        using k by simp
      then show ?thesis by blast
    next
      case None
      show ?thesis
      proof (cases "visible \<ge> width")
        case True
        with None False have "vis_body s width visible = concat (map snd (take 0 (tokens s)))"
          by (simp add: vis_body.simps)
        then show ?thesis by blast
      next
        case lt: False
        from "1.IH"(1)[OF False None lt] obtain k where
          k: "vis_body (tl s) width (visible + 1) = concat (map snd (take k (tokens (tl s))))"
          by blast
        have "tokens s = (False, [hd s]) # tokens (tl s)"
          using None False by (subst tokens.simps) simp
        moreover have "vis_body s width visible = hd s # vis_body (tl s) width (visible + 1)"
          using None False lt by (subst vis_body.simps) simp
        ultimately have "vis_body s width visible = concat (map snd (take (Suc k) (tokens s)))"
          using k by simp
        then show ?thesis by blast
      qed
    qed
  qed
qed

lemma matches_ansi_ESC:
  assumes "matches ANSI_ESC (p, s, g) \<noteq> []"
  shows "\<exists>cs. s = ESC # cs"
  using assms by (cases s) (auto simp: ANSI_ESC_def split: if_splits)

lemma search_ansi_ESC: "search_from ANSI_ESC p s \<noteq> None \<Longrightarrow> ESC \<in> set s"
proof (induction s arbitrary: p)
  case Nil
  then show ?case using matches_ansi_ESC[of p "[]" "[]"] by (auto split: list.splits)
next
  case (Cons c cs)
  show ?case
  proof (cases "matches ANSI_ESC (p, c # cs, [])")
    case Nil
    with Cons show ?thesis by simp
  next
    case (Cons a as)
    then show ?thesis using matches_ansi_ESC[of p "c # cs" "[]"] by auto
  qed
qed

lemma visible_len_RST: "visible_len RST = 0"
  by (simp add: visible_len_def tokens.simps re_match_ansi ansi_at_def RST_def
      is_ansi_param_def is_digit_def is_ascii_letter_def ascii_upper_def ascii_lower_def ESC_def)

text \<open>
  Claim C8. The truncated text has visible length at most \<open>w\<close> (and none when \<open>w\<close> is
  negative); if it contains a control sequence it ends with the reset sequence; and it is
  a whole number of tokens of the input, followed or not by the reset sequence, so no
  control sequence of the input is cut.
\<close>

theorem vis_trunc_bounded:
  shows "int (visible_len (vis_trunc s w)) \<le> max 0 w \<and>
         (has_control_sequence (vis_trunc s w) \<longrightarrow> suffix RST (vis_trunc s w)) \<and>
         (\<exists>k. vis_trunc s w = concat (map snd (take k (tokens s))) \<or>
              vis_trunc s w = concat (map snd (take k (tokens s))) @ RST)"
proof (intro conjI impI)
  have b: "vis_loop s w 0 [] = vis_body s w 0" by (simp add: vis_loop_body)
  show "int (visible_len (vis_trunc s w)) \<le> max 0 w"
  proof (cases "ESC \<in> set (vis_body s w 0)")
    case True
    have "int (visible_len (vis_body s w 0 @ RST)) \<le> max 0 (w - 0) + int (visible_len RST)"
      by (intro visible_len_body) (simp add: RST_def)
    with True b show ?thesis by (simp add: vis_trunc_def visible_len_RST)
  next
    case False
    have "int (visible_len (vis_body s w 0 @ [])) \<le> max 0 (w - 0) + int (visible_len [])"
      by (intro visible_len_body) simp
    with False b show ?thesis by (simp add: vis_trunc_def visible_len_Nil)
  qed
  show "suffix RST (vis_trunc s w)" if "has_control_sequence (vis_trunc s w)"
  proof (cases "ESC \<in> set (vis_body s w 0)")
    case True
    with b show ?thesis by (simp add: vis_trunc_def suffix_def)
  next
    case False
    with b have "vis_trunc s w = vis_body s w 0" by (simp add: vis_trunc_def)
    with that have "ESC \<in> set (vis_body s w 0)"
      using search_ansi_ESC[of None "vis_body s w 0"]
      by (simp add: has_control_sequence_def re_search_def)
    with False show ?thesis by simp
  qed
  from vis_body_tokens[of s w 0] obtain k where
    "vis_body s w 0 = concat (map snd (take k (tokens s)))" by blast
  with b show "\<exists>k. vis_trunc s w = concat (map snd (take k (tokens s))) \<or>
              vis_trunc s w = concat (map snd (take k (tokens s))) @ RST"
    by (auto simp: vis_trunc_def Let_def)
qed

lemma vis_trunc_example: "vis_trunc coloured_line 3 = ESC # ''[32mhel'' @ ESC # ''[0m''"
  by (simp add: vis_trunc_def vis_loop.simps re_match_ansi ansi_at_def coloured_line_def RST_def
      is_ansi_param_def is_digit_def is_ascii_letter_def ascii_upper_def ascii_lower_def ESC_def)

theorem vis_trunc_bounded_witness:
  "vis_trunc coloured_line 3 = ESC # ''[32mhel'' @ ESC # ''[0m'' \<and>
   int (visible_len (vis_trunc coloured_line 3)) \<le> 3 \<and>
   has_control_sequence (vis_trunc coloured_line 3) \<and>
   suffix RST (vis_trunc coloured_line 3)"
proof -
  have h: "has_control_sequence (vis_trunc coloured_line 3)"
    unfolding vis_trunc_example
    by (simp add: has_control_sequence_def re_search_def ANSI_ESC_def consume_def
      is_ansi_param_def is_digit_def is_ascii_letter_def ascii_upper_def ascii_lower_def ESC_def)
  from vis_trunc_bounded[of coloured_line 3] h vis_trunc_example show ?thesis by simp
qed

subsection \<open>Percentage extraction\<close>

lemma in_matches_char:
  "(p', r', g') \<in> set (matches (RChar P) (p, r, g)) \<Longrightarrow>
     \<exists>c. r = c # r' \<and> P c \<and> g' = g \<and> p' = Some c"
  by (cases r) (auto split: if_splits)

lemma in_matches_rep:
  assumes "(p', r', g') \<in> set (matches (RRep lo hi P) (p, r, g))"
  shows "\<exists>x. r = x @ r' \<and> (\<forall>c\<in>set x. P c) \<and> lo \<le> length x \<and>
           (case hi of None \<Rightarrow> True | Some h \<Rightarrow> length x \<le> h) \<and> g' = g \<and>
           p' = (if x = [] then p else Some (last x))"
proof -
  let ?n = "length (takeWhile P r)"
  define top where "top = (case hi of None \<Rightarrow> ?n | Some h \<Rightarrow> min h ?n)"
  from assms have "(p', r', g') \<in> set (map (\<lambda>j. consume j (p, r, g)) (rev [lo..<Suc top]))"
    unfolding top_def matches.simps Let_def .
  then obtain j where jt: "lo \<le> j" "j \<le> top"
    and c: "(p', r', g') = consume j (p, r, g)" by auto
  have j: "lo \<le> j" "j \<le> ?n" "case hi of None \<Rightarrow> True | Some h \<Rightarrow> j \<le> h"
    using jt by (auto simp: top_def split: option.splits)
  have jl: "j \<le> length r" using j(2) length_takeWhile_le[of P r] by simp
  have "take j r = take j (takeWhile P r)"
    using j(2) by (metis append_eq_conv_conj take_all_iff take_append takeWhile_dropWhile_id
        diff_is_0_eq take_0 append_Nil2)
  then have all: "\<forall>c\<in>set (take j r). P c"
    by (metis in_set_takeD set_takeWhileD)
  have l: "take j r \<noteq> [] \<Longrightarrow> last (take j r) = r ! (j - 1)"
    using jl by (cases j) (auto simp: last_conv_nth)
  have "r = take j r @ r'" using c by (simp add: consume_def)
  moreover have "length (take j r) = j" using jl by simp
  moreover have "p' = (if take j r = [] then p else Some (last (take j r)))"
    using c l jl by (auto simp: consume_def)
  moreover have "g' = g" using c by (simp add: consume_def)
  ultimately show ?thesis using all j
    by (intro exI[of _ "take j r"]) (auto split: option.splits)
qed

lemma in_matches_lit:
  "(p', r', g') \<in> set (matches (lit w) (p, r, g)) \<Longrightarrow> r = w @ r' \<and> g' = g"
proof (induction w arbitrary: p r)
  case Nil
  then show ?case by simp
next
  case (Cons x xs)
  from Cons.prems obtain p1 r1 g1 where
    a: "(p1, r1, g1) \<in> set (matches (RChar (\<lambda>c. c = x)) (p, r, g))" and
    b: "(p', r', g') \<in> set (matches (lit xs) (p1, r1, g1))" by auto
  from in_matches_char[OF a] have "r = x # r1" "g1 = g" by auto
  with Cons.IH[of p1 r1] b show ?case by auto
qed

lemma in_matches_pct:
  assumes "(p', r', g') \<in> set (matches RE_PCT (p, s, g))"
  shows "\<exists>ds fr ws. s = ds @ fr @ ws @ CHR ''%'' # r' \<and> ds \<noteq> [] \<and>
           (\<forall>c\<in>set ds. is_digit c) \<and>
           (fr = [] \<or> (\<exists>fs. fr = CHR ''.'' # fs \<and> fs \<noteq> [] \<and> (\<forall>c\<in>set fs. is_digit c))) \<and>
           (\<forall>c\<in>set ws. is_space c) \<and> g' = g @ [ds @ fr]"
proof -
  let ?D = "RRep 1 None is_digit"
  let ?F = "RSeq (RChar (\<lambda>c. c = CHR ''.'')) ?D"
  from assms obtain p1 r1 g1 p2 r2 g2 where
    grp: "(p1, r1, g1) \<in> set (matches (RGroup (RSeq ?D (ROpt ?F))) (p, s, g))" and
    sp: "(p2, r2, g2) \<in> set (matches (RRep 0 None is_space) (p1, r1, g1))" and
    pc: "(p', r', g') \<in> set (matches (RChar (\<lambda>c. c = CHR ''%'')) (p2, r2, g2))"
    unfolding RE_PCT_def by (auto simp del: matches.simps(6) matches.simps(8))
  from grp obtain g0 where
    inner: "(p1, r1, g0) \<in> set (matches (RSeq ?D (ROpt ?F)) (p, s, g))" and
    g1: "g1 = g0 @ [take (length s - length r1) s]" by auto
  from inner obtain p3 r3 g3 where
    d1: "(p3, r3, g3) \<in> set (matches ?D (p, s, g))" and
    op: "(p1, r1, g0) \<in> set (matches (ROpt ?F) (p3, r3, g3))"
    by (auto simp del: matches.simps(6))
  from in_matches_rep[OF d1] obtain ds where
    ds: "s = ds @ r3" "\<forall>c\<in>set ds. is_digit c" "1 \<le> length ds" "g3 = g" by auto
  from op have "(p1, r1, g0) \<in> set (matches ?F (p3, r3, g3)) \<or> (p1, r1, g0) = (p3, r3, g3)"
    by (auto simp del: matches.simps(6))
  then have "\<exists>fr. r3 = fr @ r1 \<and> g0 = g \<and>
      (fr = [] \<or> (\<exists>fs. fr = CHR ''.'' # fs \<and> fs \<noteq> [] \<and> (\<forall>c\<in>set fs. is_digit c)))"
  proof
    assume "(p1, r1, g0) \<in> set (matches ?F (p3, r3, g3))"
    then obtain p4 r4 g4 where
      dot: "(p4, r4, g4) \<in> set (matches (RChar (\<lambda>c. c = CHR ''.'')) (p3, r3, g3))" and
      d2: "(p1, r1, g0) \<in> set (matches ?D (p4, r4, g4))"
      by (auto simp del: matches.simps(6))
    from in_matches_char[OF dot] have r3: "r3 = CHR ''.'' # r4" "g4 = g3" by auto
    from in_matches_rep[OF d2] obtain fs where
      "r4 = fs @ r1" "\<forall>c\<in>set fs. is_digit c" "1 \<le> length fs" "g0 = g4" by auto
    with r3 ds(4) have "r3 = (CHR ''.'' # fs) @ r1 \<and> g0 = g \<and> fs \<noteq> [] \<and> (\<forall>c\<in>set fs. is_digit c)"
      by auto
    then show ?thesis by blast
  next
    assume "(p1, r1, g0) = (p3, r3, g3)"
    with ds(4) have "r3 = [] @ r1 \<and> g0 = g" by simp
    then show ?thesis by blast
  qed
  then obtain fr where fr: "r3 = fr @ r1" "g0 = g"
    "fr = [] \<or> (\<exists>fs. fr = CHR ''.'' # fs \<and> fs \<noteq> [] \<and> (\<forall>c\<in>set fs. is_digit c))" by blast
  from in_matches_rep[OF sp] obtain ws where
    ws: "r1 = ws @ r2" "\<forall>c\<in>set ws. is_space c" "g2 = g1" by auto
  from in_matches_char[OF pc] have pcr: "r2 = CHR ''%'' # r'" "g' = g2" by auto
  have "s = (ds @ fr) @ r1" using ds(1) fr(1) by simp
  then have "take (length s - length r1) s = ds @ fr" by simp
  with g1 fr(2) ws(3) pcr(2) have "g' = g @ [ds @ fr]" by simp
  moreover have "s = ds @ fr @ ws @ CHR ''%'' # r'" using ds(1) fr(1) ws(1) pcr(1) by simp
  moreover have "ds \<noteq> []" using ds(3) by auto
  ultimately show ?thesis using ds(2) fr(3) ws(2) by blast
qed

lemma search_skip:
  assumes "\<And>b q. b \<noteq> [] \<Longrightarrow> suffix b pre \<Longrightarrow> matches r (q, b @ x, []) = []"
  shows "search_from r p (pre @ x) = search_from r (if pre = [] then p else Some (last pre)) x"
  using assms
proof (induction pre arbitrary: p)
  case Nil
  then show ?case by simp
next
  case (Cons c cs)
  have "matches r (p, (c # cs) @ x, []) = []"
    by (rule Cons.prems) simp_all
  then have "search_from r p ((c # cs) @ x) = search_from r (Some c) (cs @ x)" by simp
  also have "\<dots> = search_from r (if cs = [] then Some c else Some (last cs)) x"
  proof (rule Cons.IH)
    fix b q assume "b \<noteq> []" "suffix b cs"
    then show "matches r (q, b @ x, []) = []"
      using Cons.prems[of b q] by (simp add: suffix_Cons)
  qed
  finally show ?case by simp
qed

lemma class_facts:
  "\<not> is_digit CHR ''%''" "\<not> is_digit CHR ''.''" "\<not> is_digit CHR ''/''"
  "\<not> is_space CHR ''%''" "\<not> is_space CHR ''/''" "\<not> is_space CHR ''5''"
  by (simp_all add: is_digit_def is_space_def)

lemma first_unique_split:
  "x \<notin> set xs \<Longrightarrow> x \<notin> set ys \<Longrightarrow> xs @ x # xs' = ys @ x # ys' \<Longrightarrow> xs = ys \<and> xs' = ys'"
proof (induction xs arbitrary: ys)
  case Nil
  then show ?case by (cases ys) auto
next
  case (Cons a as)
  then show ?case by (cases ys) auto
qed

lemma last_unique_split:
  assumes "xs @ x # xs' = ys @ x # ys'" and "x \<notin> set xs'" and "x \<notin> set ys'"
  shows "xs = ys \<and> xs' = ys'"
proof -
  from assms(1) have "rev (xs @ x # xs') = rev (ys @ x # ys')" by simp
  then have "rev xs' @ x # rev xs = rev ys' @ x # rev ys" by simp
  with assms(2,3) have "rev xs' = rev ys' \<and> rev xs = rev ys"
    by (intro first_unique_split) simp_all
  then show ?thesis by simp
qed

lemma pct_no_match_before:
  assumes "b \<noteq> []" and "CHR ''%'' \<notin> set b" and "\<not> is_digit (last b)"
  shows "matches RE_PCT (q, b @ ''42.5%'' @ suf, []) = []"
proof (rule ccontr)
  assume "matches RE_PCT (q, b @ ''42.5%'' @ suf, []) \<noteq> []"
  then obtain p' r' g' where "(p', r', g') \<in> set (matches RE_PCT (q, b @ ''42.5%'' @ suf, []))"
    by (cases "matches RE_PCT (q, b @ ''42.5%'' @ suf, [])") auto
  from in_matches_pct[OF this] obtain ds fr ws where
    e: "b @ ''42.5%'' @ suf = ds @ fr @ ws @ CHR ''%'' # r'" and
    ds: "ds \<noteq> []" "\<forall>c\<in>set ds. is_digit c" and
    fr: "fr = [] \<or> (\<exists>fs. fr = CHR ''.'' # fs \<and> fs \<noteq> [] \<and> (\<forall>c\<in>set fs. is_digit c))" and
    ws: "\<forall>c\<in>set ws. is_space c" by blast
  have l: "CHR ''%'' \<notin> set (b @ ''42.5'')" using assms(2) by simp
  have r: "CHR ''%'' \<notin> set (ds @ fr @ ws)" using ds(2) fr ws class_facts by auto
  from e have "(b @ ''42.5'') @ CHR ''%'' # suf = (ds @ fr @ ws) @ CHR ''%'' # r'" by simp
  with l r have e2: "b @ ''42.5'' = ds @ fr @ ws"
    using first_unique_split[of "CHR ''%''" "b @ ''42.5''" "ds @ fr @ ws" suf r'] by blast
  have "ws = []"
  proof (rule ccontr)
    assume n: "ws \<noteq> []"
    then have "last (ds @ fr @ ws) = last ws" by simp
    moreover have "last (b @ ''42.5'') = CHR ''5''" by simp
    ultimately have "last ws = CHR ''5''" using e2 by simp
    moreover have "is_space (last ws)" using ws n by simp
    ultimately show False using class_facts by simp
  qed
  with e2 have e3: "b @ ''42.5'' = ds @ fr" by simp
  from fr show False
  proof
    assume "fr = []"
    moreover have "CHR ''.'' \<in> set (b @ ''42.5'')" by simp
    ultimately have "CHR ''.'' \<in> set ds" using e3 by simp
    with ds(2) class_facts(2) show False by blast
  next
    assume "\<exists>fs. fr = CHR ''.'' # fs \<and> fs \<noteq> [] \<and> (\<forall>c\<in>set fs. is_digit c)"
    then obtain fs where fs: "fr = CHR ''.'' # fs" "\<forall>c\<in>set fs. is_digit c" by blast
    from e3 fs(1) have "(b @ ''42'') @ CHR ''.'' # ''5'' = ds @ CHR ''.'' # fs" by simp
    moreover have "CHR ''.'' \<notin> set ''5''" by simp
    moreover have "CHR ''.'' \<notin> set fs" using fs(2) class_facts(2) by blast
    ultimately have "b @ ''42'' = ds"
      using last_unique_split[of "b @ ''42''" "CHR ''.''" "''5''" ds fs] by blast
    then have "last b \<in> set ds" using assms(1) by auto
    with ds(2) assms(3) show False by blast
  qed
qed

lemma pct_match_here:
  "search_from RE_PCT q (''42.5%'' @ suf) = Some [''42.5'']"
  by (simp add: RE_PCT_def is_digit_def is_space_def consume_def)

lemma search_pct_literal:
  assumes "CHR ''%'' \<notin> set pre" and "pre = [] \<or> \<not> is_digit (last pre)"
  shows "re_search RE_PCT (pre @ ''42.5%'' @ suf) = Some [''42.5'']"
proof -
  have "search_from RE_PCT None (pre @ ''42.5%'' @ suf) =
        search_from RE_PCT (if pre = [] then None else Some (last pre)) (''42.5%'' @ suf)"
  proof (rule search_skip)
    fix b q assume b: "b \<noteq> []" "suffix b pre"
    then have "last b = last pre" "set b \<subseteq> set pre" "pre \<noteq> []"
      by (auto simp: suffix_def)
    with assms b(1) show "matches RE_PCT (q, b @ ''42.5%'' @ suf, []) = []"
      by (intro pct_no_match_before) auto
  qed
  then show ?thesis by (simp only: re_search_def pct_match_here)
qed

lemma in_matches_seq:
  "(p', r', g') \<in> set (matches (RSeq a b) st) \<Longrightarrow>
     \<exists>p1 r1 g1. (p1, r1, g1) \<in> set (matches a st) \<and> (p', r', g') \<in> set (matches b (p1, r1, g1))"
  by auto

lemma in_matches_group:
  "(p', r', g') \<in> set (matches (RGroup a) (p, r, g)) \<Longrightarrow>
     \<exists>g0. (p', r', g0) \<in> set (matches a (p, r, g)) \<and> g' = g0 @ [take (length r - length r') r]"
  by auto

lemma in_matches_bound:
  "(p', r', g') \<in> set (matches RBound (p, r, g)) \<Longrightarrow>
     at_boundary p r \<and> p' = p \<and> r' = r \<and> g' = g"
  by (auto split: if_splits)

lemma in_matches_ratio:
  assumes "(p', r', g') \<in> set (matches RE_RATIO (p, s, g))"
  shows "\<exists>A ws ws' B. s = A @ ws @ CHR ''/'' # ws' @ B @ r' \<and> A \<noteq> [] \<and> length A \<le> 5 \<and>
           (\<forall>c\<in>set A. is_digit c) \<and> (\<forall>c\<in>set ws. is_space c) \<and> (\<forall>c\<in>set ws'. is_space c) \<and>
           (B = ''65535'' \<or> B = ''65536'') \<and> g' = g @ [A, B] \<and> at_boundary p s"
proof -
  from assms[unfolded RE_RATIO_def] in_matches_seq obtain p1 r1 g1 where
    b1: "(p1, r1, g1) \<in> set (matches RBound (p, s, g))" and
    m1: "(p', r', g') \<in> set (matches
          (RSeq (RGroup (RRep 1 (Some 5) is_digit))
          (RSeq (RRep 0 None is_space)
          (RSeq (RChar (\<lambda>c. c = CHR ''/''))
          (RSeq (RRep 0 None is_space)
          (RSeq (RGroup (RAlt (lit ''65535'') (lit ''65536''))) RBound))))) (p1, r1, g1))"
    by blast
  from in_matches_bound[OF b1] have bd: "at_boundary p s" "p1 = p" "r1 = s" "g1 = g" by auto
  from in_matches_seq[OF m1] obtain p2 r2 g2 where
    ga: "(p2, r2, g2) \<in> set (matches (RGroup (RRep 1 (Some 5) is_digit)) (p1, r1, g1))" and
    m2: "(p', r', g') \<in> set (matches
          (RSeq (RRep 0 None is_space)
          (RSeq (RChar (\<lambda>c. c = CHR ''/''))
          (RSeq (RRep 0 None is_space)
          (RSeq (RGroup (RAlt (lit ''65535'') (lit ''65536''))) RBound)))) (p2, r2, g2))"
    by blast
  from in_matches_group[OF ga] obtain g0 where
    ra: "(p2, r2, g0) \<in> set (matches (RRep 1 (Some 5) is_digit) (p1, r1, g1))" and
    g2: "g2 = g0 @ [take (length r1 - length r2) r1]" by blast
  from in_matches_rep[OF ra] obtain A where
    A: "r1 = A @ r2" "\<forall>c\<in>set A. is_digit c" "1 \<le> length A" "length A \<le> 5" "g0 = g1" by auto
  then have g2': "g2 = g @ [A]" using g2 bd(4) by simp
  from in_matches_seq[OF m2] obtain p3 r3 g3 where
    s1: "(p3, r3, g3) \<in> set (matches (RRep 0 None is_space) (p2, r2, g2))" and
    m3: "(p', r', g') \<in> set (matches
          (RSeq (RChar (\<lambda>c. c = CHR ''/''))
          (RSeq (RRep 0 None is_space)
          (RSeq (RGroup (RAlt (lit ''65535'') (lit ''65536''))) RBound))) (p3, r3, g3))"
    by blast
  from in_matches_rep[OF s1] obtain ws where
    ws: "r2 = ws @ r3" "\<forall>c\<in>set ws. is_space c" "g3 = g2" by auto
  from in_matches_seq[OF m3] obtain p4 r4 g4 where
    sl: "(p4, r4, g4) \<in> set (matches (RChar (\<lambda>c. c = CHR ''/'')) (p3, r3, g3))" and
    m4: "(p', r', g') \<in> set (matches
          (RSeq (RRep 0 None is_space)
          (RSeq (RGroup (RAlt (lit ''65535'') (lit ''65536''))) RBound)) (p4, r4, g4))"
    by blast
  from in_matches_char[OF sl] have r3: "r3 = CHR ''/'' # r4" "g4 = g3" by auto
  from in_matches_seq[OF m4] obtain p5 r5 g5 where
    s2: "(p5, r5, g5) \<in> set (matches (RRep 0 None is_space) (p4, r4, g4))" and
    m5: "(p', r', g') \<in> set (matches
          (RSeq (RGroup (RAlt (lit ''65535'') (lit ''65536''))) RBound) (p5, r5, g5))"
    by blast
  from in_matches_rep[OF s2] obtain ws' where
    ws': "r4 = ws' @ r5" "\<forall>c\<in>set ws'. is_space c" "g5 = g4" by auto
  from in_matches_seq[OF m5] obtain p6 r6 g6 where
    gb: "(p6, r6, g6) \<in> set (matches (RGroup (RAlt (lit ''65535'') (lit ''65536''))) (p5, r5, g5))" and
    b2: "(p', r', g') \<in> set (matches RBound (p6, r6, g6))"
    by blast
  from in_matches_bound[OF b2] have e6: "r' = r6" "g' = g6" by auto
  from in_matches_group[OF gb] obtain h0 where
    al: "(p6, r6, h0) \<in> set (matches (RAlt (lit ''65535'') (lit ''65536'')) (p5, r5, g5))" and
    g6: "g6 = h0 @ [take (length r5 - length r6) r5]" by blast
  from al have "(p6, r6, h0) \<in> set (matches (lit ''65535'') (p5, r5, g5)) \<or>
                (p6, r6, h0) \<in> set (matches (lit ''65536'') (p5, r5, g5))" by simp
  then have "\<exists>B. (B = ''65535'' \<or> B = ''65536'') \<and> r5 = B @ r6 \<and> h0 = g5"
    using in_matches_lit[of p6 r6 h0 "''65535''" p5 r5 g5]
      in_matches_lit[of p6 r6 h0 "''65536''" p5 r5 g5] by blast
  then obtain B where B: "B = ''65535'' \<or> B = ''65536''" "r5 = B @ r6" "h0 = g5" by blast
  have "take (length r5 - length r6) r5 = B" using B(2) by simp
  with g6 B(3) ws'(3) r3(2) ws(3) g2' e6(2) have "g' = g @ [A, B]" by simp
  moreover have "s = A @ ws @ CHR ''/'' # ws' @ B @ r'"
    using bd(3) A(1) ws(1) r3(1) ws'(1) B(2) e6(1) by simp
  moreover have "A \<noteq> []" using A(3) by auto
  ultimately show ?thesis using A(2) A(4) ws(2) ws'(2) B(1) bd(1) by blast
qed

lemma search_from_Some:
  "search_from r p s = Some g \<Longrightarrow> \<exists>q t p' r'. (p', r', g) \<in> set (matches r (q, t, []))"
proof (induction s arbitrary: p)
  case Nil
  then show ?case by (auto split: list.splits) (metis list.set_intros(1))
next
  case (Cons c cs)
  show ?case
  proof (cases "matches r (p, c # cs, [])")
    case Nil
    with Cons show ?thesis by simp
  next
    case (Cons m ms)
    obtain p' r' g' where m: "m = (p', r', g')" by (cases m)
    with Cons Cons.prems have "g' = g" by simp
    with Cons m have "(p', r', g) \<in> set (matches r (p, c # cs, []))" by simp
    then show ?thesis by blast
  qed
qed

lemma pct_none:
  "CHR ''%'' \<notin> set s \<Longrightarrow> search_from RE_PCT p s = None"
proof (induction s arbitrary: p)
  case Nil
  have "matches RE_PCT (p, [], []) = []"
  proof (cases "matches RE_PCT (p, [], [])")
    case (Cons m ms)
    obtain p' r' g' where "m = (p', r', g')" by (cases m)
    with Cons have "(p', r', g') \<in> set (matches RE_PCT (p, [], []))" by simp
    from in_matches_pct[OF this] show ?thesis by simp
  qed simp
  then show ?case by simp
next
  case (Cons c cs)
  have "matches RE_PCT (p, c # cs, []) = []"
  proof (cases "matches RE_PCT (p, c # cs, [])")
    case (Cons m ms)
    obtain p' r' g' where "m = (p', r', g')" by (cases m)
    with Cons have "(p', r', g') \<in> set (matches RE_PCT (p, c # cs, []))" by simp
    from in_matches_pct[OF this] obtain ds fr ws where
      "c # cs = ds @ fr @ ws @ CHR ''%'' # r'" by blast
    then have "set (c # cs) = set (ds @ fr @ ws @ CHR ''%'' # r')" by simp
    then have "CHR ''%'' \<in> set (c # cs)" by (simp only: set_append list.set(2)) blast
    with Cons.prems show ?thesis by simp
  qed simp
  with Cons show ?case by simp
qed

lemma is_word_digits: "is_word CHR ''1''" "is_word CHR ''5''"
  by (simp_all add: is_word_def is_digit_def)

lemma ratio_match_here:
  assumes "q = None \<or> (\<exists>c. q = Some c \<and> \<not> is_word c)" and "suf = [] \<or> \<not> is_word (hd suf)"
  shows "search_from RE_RATIO q (''12345/65535'' @ suf) = Some [''12345'', ''65535'']"
proof -
  have a: "at_boundary q (CHR ''1'' # t)" for t
    using assms(1) is_word_digits by (auto simp: at_boundary_def)
  have b: "at_boundary (Some CHR ''5'') suf"
    using assms(2) is_word_digits by (cases suf) (auto simp: at_boundary_def)
  show ?thesis
    using a b by (simp add: RE_RATIO_def is_digit_def is_space_def consume_def)
qed

subsection \<open>The poll operation\<close>

lemma poll_no_text:
  "round_text run st = None \<Longrightarrow> new_state (poll run now st) = st \<and> logged (poll run now st) = []"
  by (auto simp: round_text_def poll_def poll_cmds_def split: prod.splits option.splits if_splits)

lemma poll_text:
  "\<not> terminal st \<Longrightarrow> round_text run st = Some text \<Longrightarrow>
     new_state (poll run now st) = fst (poll_update now text st) \<and>
     raised (poll run now st) = fst (snd (poll_update now text st)) \<and>
     logged (poll run now st) = snd (snd (poll_update now text st))"
  by (auto simp: round_text_def poll_def poll_cmds_def terminal_def
      split: prod.splits option.splits if_splits)

lemma round64_numeral:
  "numeral n < (2::int) ^ 53 \<Longrightarrow> round64 (numeral n) = Fin (numeral n)"
  using round64_dyadic[of "numeral n" "numeral n" 0] by (simp add: pow2_def)

lemma round64_neg_numeral:
  "numeral n < (2::int) ^ 53 \<Longrightarrow> round64 (- numeral n) = Fin (- numeral n)"
  using round64_dyadic[of "- numeral n" "- numeral n" 0] by (simp add: pow2_def)

lemma round64_half:
  "numeral n < (2::int) ^ 53 \<Longrightarrow> round64 (numeral n / 2) = Fin (numeral n / 2)"
  using round64_dyadic[of "numeral n / 2" "numeral n" "- 1"] by (simp add: pow2_def)

lemma round64_0: "round64 0 = Fin 0"
  by (simp add: round64_def)

lemma round64_1: "round64 1 = Fin 1"
  using round64_dyadic[of 1 1 0] by (simp add: pow2_def)

lemmas round64_simps = round64_numeral round64_neg_numeral round64_half round64_0 round64_1

lemma py_float_denominators:
  "py_float ''65535'' = Fin 65535" "py_float ''65536'' = Fin 65536"
  by (simp_all add: py_float_def int_of_digits_def digit_val_def round64_simps)

lemma extract_pct_no_raise: "\<exists>p. extract_pct out = Inr p"
proof (cases "re_search RE_PCT out")
  case (Some g)
  then show ?thesis by (simp add: extract_pct_def)
next
  case None
  show ?thesis
  proof (cases "re_search RE_RATIO out")
    case None
    with \<open>re_search RE_PCT out = None\<close> show ?thesis by (simp add: extract_pct_def)
  next
    case (Some g)
    then have "search_from RE_RATIO None out = Some g" by (simp add: re_search_def)
    from search_from_Some[OF this] obtain q t p' r' where
      "(p', r', g) \<in> set (matches RE_RATIO (q, t, []))" by blast
    from in_matches_ratio[OF this] obtain A B where
      g: "g = [A, B]" and B: "B = ''65535'' \<or> B = ''65536''" by auto
    from g B have "py_float (g ! 1) \<noteq> Fin 0" using py_float_denominators by auto
    with None Some show ?thesis by (simp add: extract_pct_def fdiv_def)
  qed
qed

text \<open>
  Claim C1. Once the status is done or failed, a call of the poll operation returns the
  state exactly as it was (status, progress, eta, ever_started, prev_pct and prev_time
  included), raises nothing, logs nothing and runs no external command.
\<close>

theorem poll_terminal_unchanged:
  "status st = Done \<or> status st = Failed \<Longrightarrow>
     poll run now st = \<lparr>new_state = st, raised = None, invoked = [], logged = []\<rparr>"
  by (auto simp: poll_def)

theorem poll_terminal_unchanged_witness:
  "status (example_state\<lparr>status := Done\<rparr>) = Done \<and>
   poll (\<lambda>c. Completed ''Format in progress 30%'' []) (Fin 20) (example_state\<lparr>status := Done\<rparr>) =
     \<lparr>new_state = example_state\<lparr>status := Done\<rparr>, raised = None, invoked = [], logged = []\<rparr>"
  using poll_terminal_unchanged[of "example_state\<lparr>status := Done\<rparr>"
      "\<lambda>c. Completed ''Format in progress 30%'' []" "Fin 20"]
  by (simp add: example_state_def)

lemma poll_update_progress_status:
  "re_search RE_PROGRESS text \<noteq> None \<Longrightarrow>
     status (fst (poll_update now text st)) = Formatting \<and>
     ever_started (fst (poll_update now text st)) \<and>
     snd (snd (poll_update now text st)) = []"
  using extract_pct_no_raise[of "text"]
  by (auto simp: poll_update_def Let_def split: option.splits sum.splits)

text \<open>
  Claim C3. A poll round on a non-terminal state whose text contains a progress marker and
  an error keyword takes the progress branch: the status becomes formatting, the device
  counts as started and no failure is logged.
\<close>

theorem progress_marker_wins:
  assumes "\<not> terminal st"
    and "round_text run st = Some out"
    and "has_progress_marker out"
    and "has_error_keyword out"
  shows "status (new_state (poll run now st)) = Formatting \<and>
         ever_started (new_state (poll run now st)) \<and>
         logged (poll run now st) = []"
  using poll_text[OF assms(1) assms(2), of now] poll_update_progress_status[of out now st] assms(3)
    search_progress_iff[of out]
  by auto

lemma round_text_marker_error:
  "round_text (\<lambda>c. Completed ''Format in progress 30%, error'' []) example_state = Some (''Format in progress 30%, error'' @ [CHR 0x0A] @ ''Format in progress 30%, error'')"
  by (simp add: round_text_def poll_cmds_def)

lemma round_has_progress_marker: "has_progress_marker (''Format in progress 30%, error'' @ [CHR 0x0A] @ ''Format in progress 30%, error'')"
  unfolding search_progress_iff[symmetric]
  by (simp add: re_search_def RE_PROGRESS_def lower_def ascii_upper_def ascii_lower_def)

lemma round_has_error_keyword: "has_error_keyword (''Format in progress 30%, error'' @ [CHR 0x0A] @ ''Format in progress 30%, error'')"
  unfolding search_error_iff[symmetric]
  by (simp add: re_search_def RE_ERROR_def lower_def ascii_upper_def ascii_lower_def)

theorem progress_marker_wins_witness:
  "\<not> terminal example_state \<and>
   has_progress_marker (''Format in progress 30%, error'' @ [CHR 0x0A] @ ''Format in progress 30%, error'') \<and>
   has_error_keyword (''Format in progress 30%, error'' @ [CHR 0x0A] @ ''Format in progress 30%, error'') \<and>
   status (new_state (poll (\<lambda>c. Completed ''Format in progress 30%, error'' []) (Fin 20) example_state)) = Formatting"
proof -
  have t: "\<not> terminal example_state" by (simp add: terminal_def example_state_def)
  from progress_marker_wins[OF t round_text_marker_error round_has_progress_marker round_has_error_keyword, of "Fin 20"]
    t round_has_progress_marker round_has_error_keyword
  show ?thesis by simp
qed

lemma poll_update_silent:
  "re_search RE_PROGRESS text = None \<Longrightarrow> re_search RE_ERROR text = None \<Longrightarrow>
     \<not> ever_started st \<Longrightarrow> poll_update now text st = (st, None, [])"
  by (simp add: poll_update_def)

lemma poll_update_done_only_if_started:
  "status (fst (poll_update now text st)) = Done \<Longrightarrow> status st \<noteq> Done \<Longrightarrow> ever_started st"
  by (auto simp: poll_update_def Let_def split: option.splits sum.splits if_splits)

text \<open>
  Claim C4. A state that never started and is not terminal never becomes done by a poll
  round; and when the round's text (if there is one) has neither a progress marker nor an
  error keyword, the state is returned as it was, so a waiting device stays waiting.
\<close>

theorem never_started_stays_waiting:
  assumes "\<not> ever_started st" and "\<not> terminal st"
  shows "status (new_state (poll run now st)) \<noteq> Done \<and>
         ((\<forall>text. round_text run st = Some text \<longrightarrow>
             \<not> has_progress_marker text \<and> \<not> has_error_keyword text)
          \<longrightarrow> new_state (poll run now st) = st \<and> logged (poll run now st) = [])"
proof
  have nd: "status st \<noteq> Done" using assms(2) by (simp add: terminal_def)
  show "status (new_state (poll run now st)) \<noteq> Done"
  proof (cases "round_text run st")
    case None
    from poll_no_text[OF this, of now] nd show ?thesis by simp
  next
    case (Some out)
    from poll_text[OF assms(2) Some, of now] poll_update_done_only_if_started[of now out st]
      assms(1) nd
    show ?thesis by auto
  qed
  show "(\<forall>text. round_text run st = Some text \<longrightarrow>
            \<not> has_progress_marker text \<and> \<not> has_error_keyword text)
         \<longrightarrow> new_state (poll run now st) = st \<and> logged (poll run now st) = []"
  proof
    assume q: "\<forall>text. round_text run st = Some text \<longrightarrow>
            \<not> has_progress_marker text \<and> \<not> has_error_keyword text"
    show "new_state (poll run now st) = st \<and> logged (poll run now st) = []"
    proof (cases "round_text run st")
      case None
      then show ?thesis by (rule poll_no_text)
    next
      case (Some out)
      with q have "re_search RE_PROGRESS out = None" "re_search RE_ERROR out = None"
        using search_progress_iff[of out] search_error_iff[of out] by auto
      from poll_update_silent[OF this assms(1), of now] poll_text[OF assms(2) Some, of now]
      show ?thesis by simp
    qed
  qed
qed

lemma round_text_single:
  "round_text (\<lambda>c. Completed out []) st = Some (out @ [CHR 0x0A] @ out)"
  by (simp add: round_text_def poll_cmds_def)

theorem never_started_stays_waiting_witness:
  "\<not> ever_started waiting_state \<and> \<not> terminal waiting_state \<and>
   \<not> has_progress_marker (''sense key: not ready'' @ [CHR 0x0A] @ ''sense key: not ready'') \<and>
   \<not> has_error_keyword (''sense key: not ready'' @ [CHR 0x0A] @ ''sense key: not ready'') \<and>
   status (new_state (poll (\<lambda>c. Completed ''sense key: not ready'' []) (Fin 20) waiting_state)) = Waiting"
proof -
  have a: "\<not> ever_started waiting_state" and b: "\<not> terminal waiting_state"
    by (simp_all add: waiting_state_def example_state_def terminal_def)
  have c: "\<not> has_progress_marker (''sense key: not ready'' @ [CHR 0x0A] @ ''sense key: not ready'')"
    unfolding search_progress_iff[symmetric]
    by (simp add: re_search_def RE_PROGRESS_def lower_def ascii_upper_def ascii_lower_def)
  have d: "\<not> has_error_keyword (''sense key: not ready'' @ [CHR 0x0A] @ ''sense key: not ready'')"
    unfolding search_error_iff[symmetric]
    by (simp add: re_search_def RE_ERROR_def lower_def ascii_upper_def ascii_lower_def)
  have "new_state (poll (\<lambda>c. Completed ''sense key: not ready'' []) (Fin 20) waiting_state) = waiting_state"
    using never_started_stays_waiting[OF a b, of "\<lambda>c. Completed ''sense key: not ready'' []" "Fin 20"] c d
    by (simp add: round_text_single)
  then show ?thesis using a b c d by (simp add: waiting_state_def)
qed

text \<open>The estimate at line 376: first matches of the percent pattern, then the least
  positive float as a percentage.\<close>

lemma rep_first:
  assumes "lo \<le> length (takeWhile P r)"
  shows "\<exists>tl. matches (RRep lo None P) (p, r, g) =
           consume (length (takeWhile P r)) (p, r, g) # tl"
proof -
  let ?n = "length (takeWhile P r)"
  have "[lo..<Suc ?n] = [lo..<?n] @ [?n]" using assms by simp
  then have "rev [lo..<Suc ?n] = ?n # rev [lo..<?n]" by simp
  then show ?thesis by (simp add: Let_def)
qed

lemma seq_first:
  assumes "matches a st = x # xs" and "matches b x = y # ys"
  shows "\<exists>tl. matches (RSeq a b) st = y # tl"
  using assms by simp

lemma opt_first:
  assumes "matches a st = x # xs"
  shows "\<exists>tl. matches (ROpt a) st = x # tl"
  using assms by simp

lemma group_first:
  assumes "matches a (p, r, g) = (p', r', g') # xs"
  shows "\<exists>tl. matches (RGroup a) (p, r, g) = (p', r', g' @ [take (length r - length r') r]) # tl"
  using assms by simp

lemma digits_run:
  assumes "\<forall>c\<in>set ds. is_digit c" and "ds \<noteq> []" and "\<not> is_digit c"
  shows "\<exists>tl. matches (RRep 1 None is_digit) (p, ds @ c # r, g) = (Some (last ds), c # r, g) # tl"
proof -
  have tw: "takeWhile is_digit (ds @ c # r) = ds"
    using assms(1,3) by (simp add: takeWhile_append2)
  have l: "1 \<le> length (takeWhile is_digit (ds @ c # r))"
    using assms(2) tw by (cases ds) simp_all
  have "consume (length ds) (p, ds @ c # r, g) = (Some (last ds), c # r, g)"
    using assms(2) by (simp add: consume_def nth_append last_conv_nth)
  with rep_first[OF l, of p g] tw show ?thesis by simp
qed

lemma pct_match_number:
  assumes ds: "\<forall>c\<in>set ds. is_digit c" "ds \<noteq> []" and fs: "\<forall>c\<in>set fs. is_digit c" "fs \<noteq> []"
  shows "\<exists>p tl. matches RE_PCT (q, ds @ CHR ''.'' # fs @ CHR ''%'' # rest, []) =
           (p, rest, [ds @ CHR ''.'' # fs]) # tl"
proof -
  let ?D = "RRep 1 None is_digit"
  let ?F = "RSeq (RChar (\<lambda>c. c = CHR ''.'')) ?D"
  let ?s = "ds @ CHR ''.'' # fs @ CHR ''%'' # rest"
  from digits_run[OF ds class_facts(2), of q "fs @ CHR ''%'' # rest" "[]"] obtain t1 where
    d1: "matches ?D (q, ?s, []) = (Some (last ds), CHR ''.'' # fs @ CHR ''%'' # rest, []) # t1"
    by blast
  from digits_run[OF fs class_facts(1), of "Some CHR ''.''" rest "[]"] obtain t2 where
    d2: "matches ?D (Some CHR ''.'', fs @ CHR ''%'' # rest, []) =
           (Some (last fs), CHR ''%'' # rest, []) # t2" by blast
  have dot: "matches (RChar (\<lambda>c. c = CHR ''.'')) (Some (last ds), CHR ''.'' # fs @ CHR ''%'' # rest, []) =
      [(Some CHR ''.'', fs @ CHR ''%'' # rest, [])]" by simp
  from seq_first[OF dot d2] obtain t3 where
    "matches ?F (Some (last ds), CHR ''.'' # fs @ CHR ''%'' # rest, []) =
       (Some (last fs), CHR ''%'' # rest, []) # t3" by blast
  from opt_first[OF this] obtain t4 where
    "matches (ROpt ?F) (Some (last ds), CHR ''.'' # fs @ CHR ''%'' # rest, []) =
       (Some (last fs), CHR ''%'' # rest, []) # t4" by blast
  from seq_first[OF d1 this] obtain t5 where
    "matches (RSeq ?D (ROpt ?F)) (q, ?s, []) = (Some (last fs), CHR ''%'' # rest, []) # t5"
    by blast
  from group_first[OF this] obtain t6 where
    "matches (RGroup (RSeq ?D (ROpt ?F))) (q, ?s, []) =
       (Some (last fs), CHR ''%'' # rest,
        [] @ [take (length ?s - length (CHR ''%'' # rest)) ?s]) # t6" by blast
  moreover have "take (length ?s - length (CHR ''%'' # rest)) ?s = ds @ CHR ''.'' # fs"
    by simp
  ultimately have g: "matches (RGroup (RSeq ?D (ROpt ?F))) (q, ?s, []) =
       (Some (last fs), CHR ''%'' # rest, [ds @ CHR ''.'' # fs]) # t6" by simp
  have sp: "\<And>c. is_space c \<Longrightarrow> \<not> c = CHR ''%''" using class_facts(4) by auto
  have "matches (RSeq (RRep 0 None is_space) (RChar (\<lambda>c. c = CHR ''%'')))
          (Some (last fs), CHR ''%'' # rest, [ds @ CHR ''.'' # fs]) =
        (case dropWhile is_space (CHR ''%'' # rest) of
           c # r' \<Rightarrow> if c = CHR ''%'' then [(Some c, r', [ds @ CHR ''.'' # fs])] else []
         | [] \<Rightarrow> [])"
    by (rule rep_then_char[OF sp])
  also have "\<dots> = [(Some CHR ''%'', rest, [ds @ CHR ''.'' # fs])]"
    using class_facts(4) by simp
  finally have "matches (RSeq (RRep 0 None is_space) (RChar (\<lambda>c. c = CHR ''%'')))
          (Some (last fs), CHR ''%'' # rest, [ds @ CHR ''.'' # fs]) =
        [(Some CHR ''%'', rest, [ds @ CHR ''.'' # fs])]" .
  from seq_first[OF g this] show ?thesis unfolding RE_PCT_def by blast
qed

lemma pct_no_match_nondigit:
  assumes "\<not> is_digit c"
  shows "matches RE_PCT (q, c # cs, g) = []"
proof (cases "matches RE_PCT (q, c # cs, g)")
  case (Cons m ms)
  obtain p' r' g' where "m = (p', r', g')" by (cases m)
  with Cons have "(p', r', g') \<in> set (matches RE_PCT (q, c # cs, g))" by simp
  from in_matches_pct[OF this] obtain ds fr ws where
    "c # cs = ds @ fr @ ws @ CHR ''%'' # r'" "ds \<noteq> []" "\<forall>c\<in>set ds. is_digit c" by blast
  then have "is_digit c" by (cases ds) auto
  with assms show ?thesis by simp
qed simp

lemma search_pct_after_words:
  assumes "\<forall>c\<in>set pre. \<not> is_digit c"
    and "\<forall>c\<in>set ds. is_digit c" "ds \<noteq> []" and "\<forall>c\<in>set fs. is_digit c" "fs \<noteq> []"
  shows "re_search RE_PCT (pre @ ds @ CHR ''.'' # fs @ CHR ''%'' # rest) = Some [ds @ CHR ''.'' # fs]"
proof -
  let ?x = "ds @ CHR ''.'' # fs @ CHR ''%'' # rest"
  have "search_from RE_PCT None (pre @ ?x) =
        search_from RE_PCT (if pre = [] then None else Some (last pre)) ?x"
  proof (rule search_skip)
    fix b q assume b: "b \<noteq> []" "suffix b pre"
    then obtain c cs where c: "b = c # cs" by (cases b) auto
    with b(2) have "c \<in> set pre" by (auto simp: suffix_def)
    with assms(1) have "\<not> is_digit c" by simp
    then show "matches RE_PCT (q, b @ ?x, []) = []"
      using pct_no_match_nondigit[of c q "cs @ ?x" "[]"] c by simp
  qed
  moreover obtain d dt where d: "ds = d # dt" using assms(3) by (cases ds) auto
  from pct_match_number[OF assms(2-5), of "if pre = [] then None else Some (last pre)" rest]
  obtain p tl where "matches RE_PCT (if pre = [] then None else Some (last pre), ?x, []) =
     (p, rest, [ds @ CHR ''.'' # fs]) # tl" by blast
  then have "search_from RE_PCT (if pre = [] then None else Some (last pre)) ?x =
     Some [ds @ CHR ''.'' # fs]" using d by simp
  ultimately show ?thesis by (simp add: re_search_def)
qed

lemma int_of_digits_zeros:
  "foldl (\<lambda>n c. 10 * n + digit_val c) 0 (replicate k CHR ''0'' @ ds) =
   foldl (\<lambda>n c. 10 * n + digit_val c) 0 ds"
  by (induction k) (simp_all add: digit_val_def)

lemma tiny_value_bounds:
  "pow2 (- 1075) < 5 / 10 ^ 324" "(5::rat) / 10 ^ 324 < 3 * pow2 (- 1075)"
proof -
  have p: "pow2 (- 1075) = 1 / 2 ^ 1075"
    by (simp add: pow2_def power_int_minus_divide)
  have a: "(10::rat) ^ 324 < 5 * 2 ^ 1075" by simp
  have b: "(5::rat) * 2 ^ 1075 < 3 * 10 ^ 324" by simp
  show "pow2 (- 1075) < 5 / 10 ^ 324"
    unfolding p using a by (simp add: field_simps)
  show "(5::rat) / 10 ^ 324 < 3 * pow2 (- 1075)"
    unfolding p using b by (simp add: field_simps)
qed

lemma py_float_tiny:
  "py_float (''0.'' @ replicate 323 CHR ''0'' @ ''5'') = Fin (pow2 (- 1074))"
proof -
  have "int_of_digits (replicate 323 CHR ''0'' @ ''5'') = 5"
    unfolding int_of_digits_def int_of_digits_zeros by (simp add: digit_val_def)
  then have "py_float (''0.'' @ replicate 323 CHR ''0'' @ ''5'') = round64 (5 / 10 ^ 324)"
    by (simp add: py_float_def int_of_digits_def digit_val_def)
  with round64_least[OF tiny_value_bounds] show ?thesis by simp
qed

lemma tiny_round_text:
  "round_text (\<lambda>c. Completed tiny_pct_text []) st =
     Some (''format in progress '' @ ''0'' @ CHR ''.'' # (replicate 323 CHR ''0'' @ ''5'') @
           CHR ''%'' # CHR 0x0A # tiny_pct_text)"
  by (simp add: round_text_def poll_cmds_def tiny_pct_text_def)

lemma tiny_has_marker:
  "re_search RE_PROGRESS (''format in progress '' @ x) \<noteq> None"
  by (simp add: re_search_def RE_PROGRESS_def lower_def ascii_upper_def ascii_lower_def)

lemma tiny_extract:
  "extract_pct (''format in progress '' @ ''0'' @ CHR ''.'' # (replicate 323 CHR ''0'' @ ''5'') @
           CHR ''%'' # rest) = Inr (Some (Fin (pow2 (- 1074))))"
proof -
  have "re_search RE_PCT (''format in progress '' @ ''0'' @ CHR ''.'' #
          (replicate 323 CHR ''0'' @ ''5'') @ CHR ''%'' # rest) =
        Some [''0'' @ CHR ''.'' # (replicate 323 CHR ''0'' @ ''5'')]"
    by (rule search_pct_after_words) (simp_all add: is_digit_def)
  then show ?thesis using py_float_tiny by (simp add: extract_pct_def)
qed

lemma tiny_rate:
  "fdiv (fsub (Fin (pow2 (- 1074))) (Fin 0)) (fsub (Fin 20) (Fin 10)) = Inr (Fin 0)"
proof -
  have h: "pow2 (- 1075) = pow2 (- 1074) * (1 / 2)"
    using pow2_add[of "- 1074" "- 1"] by (simp add: pow2_def)
  have a: "round64 (pow2 (- 1074)) = Fin (pow2 (- 1074))"
    using round64_representable[of "pow2 (- 1074)" 1 "- 1074"] pow2_less_iff[of "- 1074" 1024]
      pow2_pos[of "- 1074"] by simp
  have b: "round64 10 = Fin 10" by (simp add: round64_simps)
  have "round64 (pow2 (- 1074) / 10) = Fin 0"
    using pow2_pos[of "- 1074"] h by (intro round64_tiny) simp_all
  then show ?thesis by (simp add: a b fdiv_def)
qed

lemma eta_sentinel_outside_guard:
  "\<not> (fless (Fin 0) dt \<and> fless (Fin 0) dp) \<Longrightarrow> eta_of pct dp dt = Inr ''--''"
  by (auto simp: eta_of_def)

text \<open>
  Claim C5 fails on the code. A device that has not started (\<open>prev_pct\<close> 0.0,
  \<open>prev_time\<close> 10.0) is polled at time 20.0 and both commands report the percentage
  \<open>0.00...05\<close> with 323 zeros after the point. The percentage is the least positive
  float, so \<open>dp > 0\<close> and \<open>dt > 0\<close> hold, yet the rate \<open>dp / dt\<close> rounds to zero and the
  division by it at line 376 raises ZeroDivisionError. The status is already
  \<open>formatting\<close>; eta and progress keep their old values.
\<close>

theorem eta_division_by_zero:
  "fless (Fin 0) (fsub (Fin 20) (prev_time waiting_state)) \<and>
   fless (Fin 0) (fsub (Fin (pow2 (- 1074))) (prev_pct waiting_state)) \<and>
   fdiv (fsub (Fin (pow2 (- 1074))) (prev_pct waiting_state))
        (fsub (Fin 20) (prev_time waiting_state)) = Inr (Fin 0) \<and>
   raised (poll (\<lambda>c. Completed tiny_pct_text []) (Fin 20) waiting_state) =
     Some ZeroDivisionError \<and>
   status (new_state (poll (\<lambda>c. Completed tiny_pct_text []) (Fin 20) waiting_state)) =
     Formatting \<and>
   eta (new_state (poll (\<lambda>c. Completed tiny_pct_text []) (Fin 20) waiting_state)) = ''--'' \<and>
   progress (new_state (poll (\<lambda>c. Completed tiny_pct_text []) (Fin 20) waiting_state)) = Fin 0"
proof -
  let ?out = "''format in progress '' @ ''0'' @ CHR ''.'' # (replicate 323 CHR ''0'' @ ''5'') @
           CHR ''%'' # CHR 0x0A # tiny_pct_text"
  have t: "\<not> terminal waiting_state"
    by (simp add: terminal_def waiting_state_def example_state_def)
  have pv: "prev_pct waiting_state = Fin 0" "prev_time waiting_state = Fin 10"
    by (simp_all add: waiting_state_def example_state_def)
  have a: "round64 (pow2 (- 1074)) = Fin (pow2 (- 1074))"
    using round64_representable[of "pow2 (- 1074)" 1 "- 1074"] pow2_less_iff[of "- 1074" 1024]
      pow2_pos[of "- 1074"] by simp
  have b: "round64 10 = Fin 10" by (simp add: round64_simps)
  have g: "fless (Fin 0) (fsub (Fin 20) (Fin 10))"
    "fless (Fin 0) (fsub (Fin (pow2 (- 1074))) (Fin 0))"
    using pow2_pos[of "- 1074"] by (simp_all add: a b)
  have e: "eta_of (Fin (pow2 (- 1074))) (fsub (Fin (pow2 (- 1074))) (Fin 0))
             (fsub (Fin 20) (Fin 10)) = Inl ZeroDivisionError"
    using g tiny_rate by (simp add: eta_of_def fdiv_def)
  have u: "poll_update (Fin 20) ?out waiting_state =
      (waiting_state\<lparr>ever_started := True, status := Formatting\<rparr>, Some ZeroDivisionError, [])"
    using tiny_has_marker tiny_extract e
    by (simp add: poll_update_def Let_def pv)
  from poll_text[OF t tiny_round_text, of "Fin 20"] u g tiny_rate
  show ?thesis by (simp add: pv) (simp add: waiting_state_def example_state_def)
qed

text \<open>
  Claim C10. When both commands of a round time out, the poll operation returns the state
  as it was, raises nothing and logs nothing, whatever ever_started is. When a started,
  non-terminal device has at least one command complete and all completed commands print
  nothing, the state becomes done with progress 100 and eta \<open>done\<close>.
\<close>

theorem all_timeouts_unchanged:
  "((\<forall>c \<in> set (poll_cmds st). run c = Raises TimeoutExpired) \<longrightarrow>
      new_state (poll run now st) = st \<and> raised (poll run now st) = None \<and>
      logged (poll run now st) = []) \<and>
   (\<not> terminal st \<and> ever_started st \<and>
    (\<forall>c \<in> set (poll_cmds st). run c = Raises TimeoutExpired \<or> run c = Completed [] []) \<and>
    (\<exists>c \<in> set (poll_cmds st). run c = Completed [] []) \<longrightarrow>
      status (new_state (poll run now st)) = Done \<and>
      progress (new_state (poll run now st)) = Fin 100 \<and>
      eta (new_state (poll run now st)) = ''done'')"
proof (intro conjI impI)
  assume a: "\<forall>c \<in> set (poll_cmds st). run c = Raises TimeoutExpired"
  then have "run_loop run (poll_cmds st) [] [] = (None, [], poll_cmds st)"
    by (simp add: poll_cmds_def)
  then have p: "poll run now st =
      \<lparr>new_state = st, raised = None,
       invoked = (if status st \<in> {Done, Failed} then [] else poll_cmds st), logged = []\<rparr>"
    by (simp add: poll_def poll_cmds_def Let_def)
  show "new_state (poll run now st) = st" by (simp add: p)
  show "raised (poll run now st) = None" by (simp add: p)
  show "logged (poll run now st) = []" by (simp add: p)
next
  assume b: "\<not> terminal st \<and> ever_started st \<and>
    (\<forall>c \<in> set (poll_cmds st). run c = Raises TimeoutExpired \<or> run c = Completed [] []) \<and>
    (\<exists>c \<in> set (poll_cmds st). run c = Completed [] [])"
  then have "round_text run st = Some [] \<or> round_text run st = Some [CHR 0x0A]"
    by (auto simp: round_text_def poll_cmds_def)
  moreover have "re_search RE_PROGRESS [] = None" "re_search RE_ERROR [] = None"
    "re_search RE_PROGRESS [CHR 0x0A] = None" "re_search RE_ERROR [CHR 0x0A] = None"
    by (simp_all add: re_search_def RE_PROGRESS_def RE_ERROR_def lower_def ascii_upper_def
        ascii_lower_def)
  ultimately have "\<exists>out. round_text run st = Some out \<and>
      poll_update now out st =
        (st\<lparr>status := Done, progress := Fin 100, eta := ''done''\<rparr>, None,
         [log_line ''FORMAT_COMPLETE'' st])"
    using b by (auto simp: poll_update_def)
  then obtain out where r: "round_text run st = Some out" and
    u: "poll_update now out st =
        (st\<lparr>status := Done, progress := Fin 100, eta := ''done''\<rparr>, None,
         [log_line ''FORMAT_COMPLETE'' st])" by blast
  from b have nt: "\<not> terminal st" by simp
  from poll_text[OF nt r, of now] u
  show "status (new_state (poll run now st)) = Done"
    "progress (new_state (poll run now st)) = Fin 100"
    "eta (new_state (poll run now st)) = ''done''" by simp_all
qed

theorem all_timeouts_unchanged_witness:
  "new_state (poll (\<lambda>c. Raises TimeoutExpired) (Fin 20) example_state) = example_state \<and>
   ever_started example_state \<and>
   status (new_state (poll (\<lambda>c. if c = [''sg_requests'', ''/dev/sg0''] then Raises TimeoutExpired
       else Completed [] []) (Fin 20) example_state)) = Done"
  using all_timeouts_unchanged[of example_state "\<lambda>c. Raises TimeoutExpired" "Fin 20"]
    all_timeouts_unchanged[of example_state "\<lambda>c. if c = [''sg_requests'', ''/dev/sg0'']
       then Raises TimeoutExpired else Completed [] []" "Fin 20"]
  by (simp add: poll_cmds_def example_state_def terminal_def)

subsection \<open>The poll interval\<close>

lemma handle_key_interval:
  "1 \<le> interval ss \<Longrightarrow> interval ss \<le> 60 \<Longrightarrow> handle_key ch ss = Some ss' \<Longrightarrow>
     1 \<le> interval ss' \<and> interval ss' \<le> 60"
  by (auto simp: handle_key_def Let_def split: if_splits)

lemma loop_turn_interval:
  "1 \<le> interval ss \<Longrightarrow> interval ss \<le> 60 \<Longrightarrow> loop_turn ev ss = Some ss' \<Longrightarrow>
     1 \<le> interval ss' \<and> interval ss' \<le> 60"
  by (cases "fst ev") (auto simp: loop_turn_def split: option.splits if_splits dest: handle_key_interval)

lemma run_turns_interval:
  "1 \<le> interval ss \<Longrightarrow> interval ss \<le> 60 \<Longrightarrow>
     1 \<le> interval (run_turns evs ss) \<and> interval (run_turns evs ss) \<le> 60"
proof (induction evs arbitrary: ss)
  case Nil
  then show ?case by simp
next
  case (Cons ev evs)
  show ?case
  proof (cases "loop_turn ev ss")
    case None
    with Cons.prems show ?thesis by simp
  next
    case (Some ss')
    from loop_turn_interval[OF Cons.prems Some] Cons.IH[of ss'] Some
    show ?thesis by simp
  qed
qed

text \<open>
  Claim C9. From the initial session (interval 5), after any sequence of loop turns, with
  any keys, the interval is an integer between 1 and 60; the plus key sets it to
  \<open>min 60 (interval + 1)\<close> and the minus key to \<open>max 1 (interval - 1)\<close>.
\<close>

theorem interval_in_range:
  "1 \<le> interval (run_turns evs initial_session) \<and>
   interval (run_turns evs initial_session) \<le> 60 \<and>
   handle_key ''+'' ss = Some (ss\<lparr>interval := min 60 (interval ss + 1)\<rparr>) \<and>
   handle_key ''-'' ss = Some (ss\<lparr>interval := max 1 (interval ss - 1)\<rparr>)"
proof -
  have "1 \<le> interval initial_session" "interval initial_session \<le> 60"
    by (simp_all add: initial_session_def)
  from run_turns_interval[OF this, of evs] show ?thesis
    by (simp add: handle_key_def)
qed

subsection \<open>Progress while formatting\<close>

lemma py_float_30_60: "py_float ''30'' = Fin 30" "py_float ''60'' = Fin 60"
  by (simp_all add: py_float_def int_of_digits_def digit_val_def round64_simps)

lemma extract_pct_30:
  "extract_pct (''Format in progress 30%'' @ rest) = Inr (Some (Fin 30))"
  by (simp add: extract_pct_def re_search_def RE_PCT_def is_digit_def is_space_def consume_def
      py_float_30_60)

lemma extract_pct_60:
  "extract_pct (''Format in progress 60%'' @ rest) = Inr (Some (Fin 60))"
  by (simp add: extract_pct_def re_search_def RE_PCT_def is_digit_def is_space_def consume_def
      py_float_30_60)

lemma marker_Format: "re_search RE_PROGRESS (''Format in progress '' @ x) \<noteq> None"
  by (simp add: re_search_def RE_PROGRESS_def lower_def ascii_upper_def ascii_lower_def)

lemma fmt_duration_40: "fmt_duration (Fin 40) = Inr ''40s''"
  by (simp add: fmt_duration_def py_int_def str_int_def str_nat.simps)

lemma eta_of_60: "eta_of (Fin 60) (fsub (Fin 60) (Fin 50)) (fsub (Fin 20) (Fin 10)) = Inr ''40s''"
  by (simp add: eta_of_def fdiv_def round64_simps fmt_duration_40)

lemma eta_of_30: "eta_of (Fin 30) (fsub (Fin 30) (Fin 50)) (fsub (Fin 20) (Fin 10)) = Inr ''--''"
  by (simp add: eta_of_def round64_simps)

lemma poll_update_30:
  "poll_update (Fin 20) (''Format in progress 30%'' @ rest) example_state =
     (example_state\<lparr>ever_started := True, status := Formatting, eta := ''--'',
        prev_pct := Fin 30, prev_time := Fin 20, progress := Fin 30\<rparr>, None, [])"
  using marker_Format[of "''30%'' @ rest"] extract_pct_30[of rest] eta_of_30
  by (simp add: poll_update_def Let_def example_state_def py_max_def py_min_def)

lemma poll_update_60:
  "poll_update (Fin 20) (''Format in progress 60%'' @ rest) example_state =
     (example_state\<lparr>ever_started := True, status := Formatting, eta := ''40s'',
        prev_pct := Fin 60, prev_time := Fin 20, progress := Fin 60\<rparr>, None, [])"
  using marker_Format[of "''60%'' @ rest"] extract_pct_60[of rest] eta_of_60
  by (simp add: poll_update_def Let_def example_state_def py_max_def py_min_def)

text \<open>
  Claim C2 as stated fails: a formatting device at 50 percent whose next round reports
  30 percent stays formatting and drops to 30.
\<close>

theorem progress_regresses_counterexample:
  "status example_state = Formatting \<and>
   status (new_state (poll (\<lambda>c. Completed ''Format in progress 30%'' []) (Fin 20) example_state)) = Formatting \<and>
   progress (new_state (poll (\<lambda>c. Completed ''Format in progress 30%'' []) (Fin 20) example_state)) = Fin 30 \<and>
   progress example_state = Fin 50"
proof -
  have t: "\<not> terminal example_state" by (simp add: terminal_def example_state_def)
  from poll_text[OF t round_text_single, of "''Format in progress 30%''" "Fin 20"]
    poll_update_30[of "[CHR 0x0A] @ ''Format in progress 30%''"]
  show ?thesis by (simp add: example_state_def)
qed

lemma poll_update_progress_cases:
  "status (fst (poll_update now out st)) = Failed \<Longrightarrow> status st \<noteq> Failed \<Longrightarrow>
     progress (fst (poll_update now out st)) = Fin 0"
  "status (fst (poll_update now out st)) = Done \<Longrightarrow> status st \<noteq> Done \<Longrightarrow>
     progress (fst (poll_update now out st)) = Fin 100"
  "status (fst (poll_update now out st)) = Formatting \<Longrightarrow> status st = Formatting \<Longrightarrow>
     progress (fst (poll_update now out st)) =
       (case (if has_progress_marker out then extract_pct out else Inr None) of
          Inr (Some pct) \<Rightarrow>
            if fst (snd (poll_update now out st)) = None
            then py_max (Fin 0) (py_min (Fin 100) pct) else progress st
        | _ \<Rightarrow> progress st)"
  "status st = Formatting \<Longrightarrow> status (fst (poll_update now out st)) \<noteq> Waiting"
  using search_progress_iff[of out]
  by (auto simp: poll_update_def Let_def split: option.splits sum.splits if_splits)

text \<open>
  Claim C2, amended. A poll round on a formatting state never leads back to waiting. If
  the state becomes failed its progress is 0, if it becomes done its progress is 100, and
  if it stays formatting its progress is the old one when the round has no text, extracts
  no percentage or ends by raising at line 376, and otherwise the extracted percentage
  clamped into 0..100, whether that is more or less than before.
\<close>

theorem progress_while_formatting:
  assumes "status st = Formatting"
  shows "status (new_state (poll run now st)) \<noteq> Waiting \<and>
     (status (new_state (poll run now st)) = Failed \<longrightarrow>
        progress (new_state (poll run now st)) = Fin 0) \<and>
     (status (new_state (poll run now st)) = Done \<longrightarrow>
        progress (new_state (poll run now st)) = Fin 100) \<and>
     (status (new_state (poll run now st)) = Formatting \<longrightarrow>
        progress (new_state (poll run now st)) =
          (case round_text run st of
             None \<Rightarrow> progress st
           | Some out \<Rightarrow>
               (case (if has_progress_marker out then extract_pct out else Inr None) of
                  Inr (Some pct) \<Rightarrow>
                    if raised (poll run now st) = None
                    then py_max (Fin 0) (py_min (Fin 100) pct) else progress st
                | _ \<Rightarrow> progress st)))"
proof (cases "round_text run st")
  case None
  from poll_no_text[OF None, of now] assms None show ?thesis by simp
next
  case (Some out)
  have t: "\<not> terminal st" using assms by (simp add: terminal_def)
  from poll_text[OF t Some, of now]
  have n: "new_state (poll run now st) = fst (poll_update now out st)"
    and r: "raised (poll run now st) = fst (snd (poll_update now out st))"
    by simp_all
  show ?thesis
    unfolding n r Some option.case
    using poll_update_progress_cases[where now=now and out=out and st=st] assms
    by (intro conjI impI) simp_all
qed

theorem progress_while_formatting_witness:
  "status example_state = Formatting \<and>
   raised (poll (\<lambda>c. Completed ''Format in progress 60%'' []) (Fin 20) example_state) = None \<and>
   progress (new_state (poll (\<lambda>c. Completed ''Format in progress 60%'' []) (Fin 20) example_state)) = Fin 60"
proof -
  let ?out = "''Format in progress 60%'' @ [CHR 0x0A] @ ''Format in progress 60%''"
  have s: "status example_state = Formatting" by (simp add: example_state_def)
  have t: "\<not> terminal example_state" by (simp add: terminal_def example_state_def)
  have m: "has_progress_marker ?out"
    unfolding search_progress_iff[symmetric] using marker_Format[of "''60%'' @ [CHR 0x0A] @ ''Format in progress 60%''"]
    by simp
  have p: "extract_pct ?out = Inr (Some (Fin 60))"
    using extract_pct_60[of "[CHR 0x0A] @ ''Format in progress 60%''"] by simp
  have f: "status (new_state (poll (\<lambda>c. Completed ''Format in progress 60%'' []) (Fin 20) example_state)) = Formatting"
    "raised (poll (\<lambda>c. Completed ''Format in progress 60%'' []) (Fin 20) example_state) = None"
    using poll_text[OF t round_text_single, of "''Format in progress 60%''" "Fin 20"]
      poll_update_60[of "[CHR 0x0A] @ ''Format in progress 60%''"]
    by simp_all
  from progress_while_formatting[OF s, of "\<lambda>c. Completed ''Format in progress 60%'' []" "Fin 20"]
    f s m p
  show ?thesis by (simp add: round_text_single py_max_def py_min_def)
qed

subsection \<open>Failures of the external command\<close>

text \<open>
  Claim C6 as stated fails: when the command cannot be started, \<open>subprocess.run\<close> raises
  an OSError, which the handler at line 352 does not catch; it leaves the poll operation.
\<close>

theorem unavailable_command_counterexample:
  "raised (poll (\<lambda>c. Raises OSError) (Fin 20) waiting_state) = Some OSError"
  by (simp add: poll_def waiting_state_def example_state_def)

lemma run_loop_timeouts_only:
  "\<forall>c \<in> set cmds. \<forall>e. run c = Raises e \<longrightarrow> e = TimeoutExpired \<Longrightarrow>
     run_loop run cmds outs called =
       (None,
        outs @ concat (map (\<lambda>c. case run c of Completed out err \<Rightarrow> [out @ err] | Raises e \<Rightarrow> []) cmds),
        called @ cmds)"
  by (induction cmds arbitrary: outs called) (auto split: run_result.splits)

lemma run_loop_other_failure:
  "\<forall>c' \<in> set pre. \<forall>e'. run c' = Raises e' \<longrightarrow> e' = TimeoutExpired \<Longrightarrow>
   run c = Raises e \<Longrightarrow> e \<noteq> TimeoutExpired \<Longrightarrow>
     run_loop run (pre @ c # post) outs called =
       (Some e,
        outs @ concat (map (\<lambda>c. case run c of Completed out err \<Rightarrow> [out @ err] | Raises e \<Rightarrow> []) pre),
        called @ pre @ [c])"
  by (induction pre arbitrary: outs called) (auto split: run_result.splits)

lemma poll_run_loop:
  "\<not> terminal st \<Longrightarrow>
   poll run now st =
     (case run_loop run (poll_cmds st) [] [] of
        (Some e, outputs, called) \<Rightarrow>
          \<lparr>new_state = st, raised = Some e, invoked = called, logged = []\<rparr>
      | (None, outputs, called) \<Rightarrow>
          if outputs = [] then
            \<lparr>new_state = st, raised = None, invoked = called, logged = []\<rparr>
          else
            (case poll_update now (join [CHR 0x0A] outputs) st of
               (st', e, lg) \<Rightarrow>
                 \<lparr>new_state = st', raised = e, invoked = called, logged = lg\<rparr>))"
  by (simp add: poll_def terminal_def poll_cmds_def Let_def)

text \<open>
  Claim C6, amended. Only a timeout is tolerated. In a round on a non-terminal state in
  which every failing invocation fails by timing out, both commands are invoked, the
  timed-out ones contribute no text, and the round is evaluated on the joined outputs of
  the invocations that completed: with none, the state is left as it was and nothing is
  raised; otherwise the state, the exception if any and the log lines are those of the
  evaluation of that text. When an invocation fails in any other way, after invocations
  that completed or timed out, that exception leaves the poll operation at once, with
  the state as it was, nothing logged and no later command run.
\<close>

theorem only_timeouts_tolerated:
  "(\<not> terminal st \<and> (\<forall>c \<in> set (poll_cmds st). \<forall>e. run c = Raises e \<longrightarrow> e = TimeoutExpired) \<longrightarrow>
      (let outputs = concat (map (\<lambda>c. case run c of Completed out err \<Rightarrow> [out @ err]
                                            | Raises e \<Rightarrow> []) (poll_cmds st))
       in invoked (poll run now st) = poll_cmds st \<and>
          round_text run st = (if outputs = [] then None else Some (join [CHR 0x0A] outputs)) \<and>
          (outputs = [] \<longrightarrow>
             new_state (poll run now st) = st \<and> raised (poll run now st) = None \<and>
             logged (poll run now st) = []) \<and>
          (outputs \<noteq> [] \<longrightarrow>
             new_state (poll run now st) = fst (poll_update now (join [CHR 0x0A] outputs) st) \<and>
             raised (poll run now st) = fst (snd (poll_update now (join [CHR 0x0A] outputs) st)) \<and>
             logged (poll run now st) = snd (snd (poll_update now (join [CHR 0x0A] outputs) st))))) \<and>
   (\<not> terminal st \<and> poll_cmds st = pre @ c # post \<and>
    (\<forall>c' \<in> set pre. \<forall>e'. run c' = Raises e' \<longrightarrow> e' = TimeoutExpired) \<and>
    run c = Raises e \<and> e \<noteq> TimeoutExpired \<longrightarrow>
      raised (poll run now st) = Some e \<and> new_state (poll run now st) = st \<and>
      invoked (poll run now st) = pre @ [c] \<and> logged (poll run now st) = [])"
proof (intro conjI impI)
  assume a: "\<not> terminal st \<and>
    (\<forall>c \<in> set (poll_cmds st). \<forall>e. run c = Raises e \<longrightarrow> e = TimeoutExpired)"
  then have t: "\<not> terminal st"
    and b: "\<forall>c \<in> set (poll_cmds st). \<forall>e. run c = Raises e \<longrightarrow> e = TimeoutExpired"
    by simp_all
  note rl = run_loop_timeouts_only[OF b, of "[]" "[]"]
  show "let outputs = concat (map (\<lambda>c. case run c of Completed out err \<Rightarrow> [out @ err]
                                            | Raises e \<Rightarrow> []) (poll_cmds st))
       in invoked (poll run now st) = poll_cmds st \<and>
          round_text run st = (if outputs = [] then None else Some (join [CHR 0x0A] outputs)) \<and>
          (outputs = [] \<longrightarrow>
             new_state (poll run now st) = st \<and> raised (poll run now st) = None \<and>
             logged (poll run now st) = []) \<and>
          (outputs \<noteq> [] \<longrightarrow>
             new_state (poll run now st) = fst (poll_update now (join [CHR 0x0A] outputs) st) \<and>
             raised (poll run now st) = fst (snd (poll_update now (join [CHR 0x0A] outputs) st)) \<and>
             logged (poll run now st) = snd (snd (poll_update now (join [CHR 0x0A] outputs) st)))"
    unfolding Let_def poll_run_loop[OF t] round_text_def rl
    by (simp split: prod.splits)
next
  assume a: "\<not> terminal st \<and> poll_cmds st = pre @ c # post \<and>
    (\<forall>c' \<in> set pre. \<forall>e'. run c' = Raises e' \<longrightarrow> e' = TimeoutExpired) \<and>
    run c = Raises e \<and> e \<noteq> TimeoutExpired"
  then have t: "\<not> terminal st" and p: "poll_cmds st = pre @ c # post"
    and b: "\<forall>c' \<in> set pre. \<forall>e'. run c' = Raises e' \<longrightarrow> e' = TimeoutExpired"
    and r: "run c = Raises e" and ne: "e \<noteq> TimeoutExpired"
    by simp_all
  note rl = run_loop_other_failure[OF b r ne, of post "[]" "[]"]
  show "raised (poll run now st) = Some e" "new_state (poll run now st) = st"
    "invoked (poll run now st) = pre @ [c]" "logged (poll run now st) = []"
    unfolding poll_run_loop[OF t] p rl by simp_all
qed

theorem only_timeouts_tolerated_witness:
  "invoked (poll (\<lambda>c. if c = [''sg_requests'', ''/dev/sg0''] then Raises TimeoutExpired
       else Completed ''Format in progress 60%'' []) (Fin 20) example_state) =
     [[''sg_requests'', ''/dev/sg0''], [''sg_requests'', ''--progress'', ''/dev/sg0'']] \<and>
   round_text (\<lambda>c. if c = [''sg_requests'', ''/dev/sg0''] then Raises TimeoutExpired
       else Completed ''Format in progress 60%'' []) example_state = Some ''Format in progress 60%'' \<and>
   raised (poll (\<lambda>c. Raises OSError) (Fin 20) example_state) = Some OSError \<and>
   new_state (poll (\<lambda>c. Raises OSError) (Fin 20) example_state) = example_state \<and>
   invoked (poll (\<lambda>c. Raises OSError) (Fin 20) example_state) = [[''sg_requests'', ''/dev/sg0'']] \<and>
   raised (poll (\<lambda>c. if c = [''sg_requests'', ''/dev/sg0''] then Completed ''Format in progress 60%'' []
       else Raises OSError) (Fin 20) example_state) = Some OSError \<and>
   new_state (poll (\<lambda>c. if c = [''sg_requests'', ''/dev/sg0''] then Completed ''Format in progress 60%'' []
       else Raises OSError) (Fin 20) example_state) = example_state \<and>
   invoked (poll (\<lambda>c. if c = [''sg_requests'', ''/dev/sg0''] then Completed ''Format in progress 60%'' []
       else Raises OSError) (Fin 20) example_state) =
     [[''sg_requests'', ''/dev/sg0''], [''sg_requests'', ''--progress'', ''/dev/sg0'']]"
  using only_timeouts_tolerated[where st=example_state and run="\<lambda>c. if c = [''sg_requests'', ''/dev/sg0'']
       then Raises TimeoutExpired else Completed ''Format in progress 60%'' []" and now="Fin 20"
       and e=OSError and pre="[]" and c="[]" and post="[]"]
    only_timeouts_tolerated[where st=example_state and run="\<lambda>c. Raises OSError" and e=OSError
       and now="Fin 20" and pre="[]" and c="[''sg_requests'', ''/dev/sg0'']"
       and post="[[''sg_requests'', ''--progress'', ''/dev/sg0'']]"]
    only_timeouts_tolerated[where st=example_state and run="\<lambda>c. if c = [''sg_requests'', ''/dev/sg0'']
       then Completed ''Format in progress 60%'' [] else Raises OSError" and e=OSError
       and now="Fin 20" and pre="[[''sg_requests'', ''/dev/sg0'']]"
       and c="[''sg_requests'', ''--progress'', ''/dev/sg0'']" and post="[]"]
  by (simp add: poll_cmds_def example_state_def terminal_def Let_def)

subsection \<open>The order of percentage extraction\<close>

lemma py_float_examples:
  "py_float ''42.5'' = Fin (85 / 2)" "py_float ''12345'' = Fin 12345"
  "py_float ''512'' = Fin 512"
  by (simp_all add: py_float_def int_of_digits_def digit_val_def round64_simps)

lemma denominator_chars:
  assumes "B = ''65535'' \<or> B = ''65536''" and "\<forall>c\<in>set ws. is_space c"
  shows "CHR ''1'' \<notin> set (ws @ B)"
proof -
  have "\<not> is_space CHR ''1''" by (simp add: is_space_def)
  with assms show ?thesis by auto
qed

lemma ratio_no_earlier_match:
  assumes "b \<noteq> []" and "\<not> sublist ''65535'' b" and "\<not> sublist ''65536'' b"
  shows "matches RE_RATIO (q, b @ ''12345/65535'' @ suf, []) = []"
proof (cases "matches RE_RATIO (q, b @ ''12345/65535'' @ suf, [])")
  case Nil
  then show ?thesis .
next
  case (Cons m ms)
  obtain p' r' g' where "m = (p', r', g')" by (cases m)
  with Cons have "(p', r', g') \<in> set (matches RE_RATIO (q, b @ ''12345/65535'' @ suf, []))" by simp
  from in_matches_ratio[OF this] obtain A ws ws' B where
    e: "b @ ''12345/65535'' @ suf = A @ ws @ CHR ''/'' # ws' @ B @ r'" and
    A: "length A \<le> 5" "\<forall>c\<in>set A. is_digit c" and ws: "\<forall>c\<in>set ws. is_space c" and
    ws': "\<forall>c\<in>set ws'. is_space c" and B: "B = ''65535'' \<or> B = ''65536''" by blast
  have r: "CHR ''/'' \<notin> set (A @ ws)" using A(2) ws class_facts by auto
  show ?thesis
  proof (cases "CHR ''/'' \<in> set b")
    case False
    then have l: "CHR ''/'' \<notin> set (b @ ''12345'')" by simp
    from e have "(b @ ''12345'') @ CHR ''/'' # (''65535'' @ suf) = (A @ ws) @ CHR ''/'' # (ws' @ B @ r')"
      by simp
    with l r have e2: "b @ ''12345'' = A @ ws"
      using first_unique_split[of "CHR ''/''" "b @ ''12345''" "A @ ws" "''65535'' @ suf" "ws' @ B @ r'"]
      by blast
    have "ws = []"
    proof (rule ccontr)
      assume n: "ws \<noteq> []"
      then have "last (A @ ws) = last ws" by simp
      moreover have "last (b @ ''12345'') = CHR ''5''" by simp
      ultimately have "last ws = CHR ''5''" using e2 by simp
      moreover have "is_space (last ws)" using ws n by simp
      ultimately show False using class_facts by simp
    qed
    with e2 have "length (b @ ''12345'') = length A" by simp
    then have "length A = length b + 5" by simp
    with A(1) assms(1) show ?thesis by simp
  next
    case True
    then obtain b1 b2 where b: "b = b1 @ CHR ''/'' # b2" and b1: "CHR ''/'' \<notin> set b1"
      by (auto dest: split_list_first)
    from e b have "b1 @ CHR ''/'' # (b2 @ ''12345/65535'' @ suf) = (A @ ws) @ CHR ''/'' # (ws' @ B @ r')"
      by simp
    with b1 r have "b2 @ ''12345/65535'' @ suf = ws' @ B @ r'"
      using first_unique_split[of "CHR ''/''" b1 "A @ ws" "b2 @ ''12345/65535'' @ suf" "ws' @ B @ r'"]
      by blast
    then have "(ws' @ B) @ r' = b2 @ (''12345/65535'' @ suf)" by simp
    then obtain us where
      "(ws' @ B = b2 @ us \<and> us @ r' = ''12345/65535'' @ suf) \<or>
       ((ws' @ B) @ us = b2 \<and> r' = us @ ''12345/65535'' @ suf)"
      unfolding append_eq_append_conv2 by blast
    then have "sublist B b2"
    proof
      assume c: "ws' @ B = b2 @ us \<and> us @ r' = ''12345/65535'' @ suf"
      have "us = []"
      proof (rule ccontr)
        assume "us \<noteq> []"
        then obtain u ut where u: "us = u # ut" by (cases us) auto
        with c have "u = CHR ''1''" by simp
        with u c have "CHR ''1'' \<in> set (ws' @ B)" by simp
        with denominator_chars[OF B ws'] show False by simp
      qed
      with c have "b2 = ws' @ B @ []" by simp
      then show ?thesis by (simp only: sublist_appendI)
    next
      assume c: "(ws' @ B) @ us = b2 \<and> r' = us @ ''12345/65535'' @ suf"
      then have "b2 = ws' @ B @ us" by simp
      then show ?thesis by (simp only: sublist_appendI)
    qed
    moreover have "sublist b2 ((b1 @ [CHR ''/'']) @ b2 @ [])" by (rule sublist_appendI)
    then have "sublist b2 b" using b by simp
    ultimately have "sublist B b" by (rule sublist_order.order_trans)
    with B assms(2,3) show ?thesis by auto
  qed
qed

lemma search_ratio_after:
  assumes "\<not> sublist ''65535'' pre" and "\<not> sublist ''65536'' pre"
    and "pre = [] \<or> \<not> is_word (last pre)" and "suf = [] \<or> \<not> is_word (hd suf)"
  shows "re_search RE_RATIO (pre @ ''12345/65535'' @ suf) = Some [''12345'', ''65535'']"
proof -
  have "search_from RE_RATIO None (pre @ ''12345/65535'' @ suf) =
        search_from RE_RATIO (if pre = [] then None else Some (last pre)) (''12345/65535'' @ suf)"
  proof (rule search_skip)
    fix b q assume b: "b \<noteq> []" "suffix b pre"
    then have s: "sublist b pre" by (simp add: suffix_imp_sublist)
    have "\<not> sublist ''65535'' b"
    proof
      assume "sublist ''65535'' b"
      from this s have "sublist ''65535'' pre" by (rule sublist_order.order_trans)
      with assms(1) show False by simp
    qed
    moreover have "\<not> sublist ''65536'' b"
    proof
      assume "sublist ''65536'' b"
      from this s have "sublist ''65536'' pre" by (rule sublist_order.order_trans)
      with assms(2) show False by simp
    qed
    ultimately have "\<not> sublist ''65535'' b" "\<not> sublist ''65536'' b" by simp_all
    with b(1) show "matches RE_RATIO (q, b @ ''12345/65535'' @ suf, []) = []"
      by (intro ratio_no_earlier_match)
  qed
  also have "\<dots> = Some [''12345'', ''65535'']"
    using assms(3,4) by (intro ratio_match_here) auto
  finally show ?thesis by (simp only: re_search_def)
qed

text \<open>
  Claim C7. When the percent pattern matches, the percentage is the float read from the
  number captured by its leftmost match, whatever ratio is present. Only when it does not
  match is the ratio pattern tried: its leftmost match captures a numerator of one to
  five digits and the denominator 65535 or 65536, and the percentage is their quotient
  times 100. When neither matches the percentage is absent, and no case raises. A text
  in which \<open>42.5%\<close> comes after a part with no percent sign that does not end in a digit
  yields 42.5. A text in which the percent pattern does not match and whose leftmost
  ratio is \<open>12345/65535\<close> yields \<open>12345/65535*100\<close>; this is so whenever \<open>12345/65535\<close>
  stands between word boundaries after a part that contains neither denominator.
\<close>

theorem pct_extraction_order:
  "(re_search RE_PCT s = Some g \<longrightarrow>
      extract_pct s = Inr (Some (py_float (g ! 0))) \<and>
      (\<exists>ds fr. g = [ds @ fr] \<and> ds \<noteq> [] \<and> (\<forall>c\<in>set ds. is_digit c) \<and>
         (fr = [] \<or> (\<exists>fs. fr = CHR ''.'' # fs \<and> fs \<noteq> [] \<and> (\<forall>c\<in>set fs. is_digit c))))) \<and>
   (re_search RE_PCT s = None \<and> re_search RE_RATIO s = Some g \<longrightarrow>
      extract_pct s = Inr (Some (fmul (fquot (py_float (g ! 0)) (py_float (g ! 1))) (Fin 100))) \<and>
      length g = 2 \<and> (g ! 1 = ''65535'' \<or> g ! 1 = ''65536'') \<and>
      1 \<le> length (g ! 0) \<and> length (g ! 0) \<le> 5 \<and> (\<forall>c\<in>set (g ! 0). is_digit c)) \<and>
   (re_search RE_PCT s = None \<and> re_search RE_RATIO s = None \<longrightarrow> extract_pct s = Inr None) \<and>
   (CHR ''%'' \<notin> set pre \<and> (pre = [] \<or> \<not> is_digit (last pre)) \<longrightarrow>
      extract_pct (pre @ ''42.5%'' @ suf) = Inr (Some (Fin (85 / 2)))) \<and>
   (re_search RE_PCT s = None \<and> re_search RE_RATIO s = Some [''12345'', ''65535''] \<longrightarrow>
      extract_pct s = Inr (Some (fmul (fquot (Fin 12345) (Fin 65535)) (Fin 100)))) \<and>
   (re_search RE_PCT (pre @ ''12345/65535'' @ suf) = None \<and>
    \<not> sublist ''65535'' pre \<and> \<not> sublist ''65536'' pre \<and>
    (pre = [] \<or> \<not> is_word (last pre)) \<and> (suf = [] \<or> \<not> is_word (hd suf)) \<longrightarrow>
      extract_pct (pre @ ''12345/65535'' @ suf) =
        Inr (Some (fmul (fquot (Fin 12345) (Fin 65535)) (Fin 100))))"
proof (intro conjI impI)
  assume a: "re_search RE_PCT s = Some g"
  then show "extract_pct s = Inr (Some (py_float (g ! 0)))" by (simp add: extract_pct_def)
  from a have "search_from RE_PCT None s = Some g" by (simp add: re_search_def)
  from search_from_Some[OF this] obtain q t p' r' where
    "(p', r', g) \<in> set (matches RE_PCT (q, t, []))" by blast
  from in_matches_pct[OF this]
  show "\<exists>ds fr. g = [ds @ fr] \<and> ds \<noteq> [] \<and> (\<forall>c\<in>set ds. is_digit c) \<and>
         (fr = [] \<or> (\<exists>fs. fr = CHR ''.'' # fs \<and> fs \<noteq> [] \<and> (\<forall>c\<in>set fs. is_digit c)))"
    by auto
next
  assume a: "re_search RE_PCT s = None \<and> re_search RE_RATIO s = Some g"
  then have "search_from RE_RATIO None s = Some g" by (simp add: re_search_def)
  from search_from_Some[OF this] obtain q t p' r' where
    "(p', r', g) \<in> set (matches RE_RATIO (q, t, []))" by blast
  from in_matches_ratio[OF this] obtain A B where
    g: "g = [A, B]" and A: "A \<noteq> []" "length A \<le> 5" "\<forall>c\<in>set A. is_digit c" and
    B: "B = ''65535'' \<or> B = ''65536''" by auto
  from g B have "py_float (g ! 1) \<noteq> Fin 0" using py_float_denominators by auto
  with a show "extract_pct s =
      Inr (Some (fmul (fquot (py_float (g ! 0)) (py_float (g ! 1))) (Fin 100)))"
    by (simp add: extract_pct_def fdiv_def)
  from g show "length g = 2" by simp
  from g B show "g ! 1 = ''65535'' \<or> g ! 1 = ''65536''" by simp
  from g A(1) show "1 \<le> length (g ! 0)" by (cases A) simp_all
  from g A(2) show "length (g ! 0) \<le> 5" by simp
  from g A(3) show "\<forall>c\<in>set (g ! 0). is_digit c" by simp
next
  assume "re_search RE_PCT s = None \<and> re_search RE_RATIO s = None"
  then show "extract_pct s = Inr None" by (simp add: extract_pct_def)
next
  assume "CHR ''%'' \<notin> set pre \<and> (pre = [] \<or> \<not> is_digit (last pre))"
  then have "re_search RE_PCT (pre @ ''42.5%'' @ suf) = Some [''42.5'']"
    by (intro search_pct_literal) auto
  then show "extract_pct (pre @ ''42.5%'' @ suf) = Inr (Some (Fin (85 / 2)))"
    by (simp add: extract_pct_def py_float_examples)
next
  assume "re_search RE_PCT s = None \<and> re_search RE_RATIO s = Some [''12345'', ''65535'']"
  then show "extract_pct s = Inr (Some (fmul (fquot (Fin 12345) (Fin 65535)) (Fin 100)))"
    by (simp add: extract_pct_def fdiv_def py_float_examples py_float_denominators)
next
  assume a: "re_search RE_PCT (pre @ ''12345/65535'' @ suf) = None \<and>
    \<not> sublist ''65535'' pre \<and> \<not> sublist ''65536'' pre \<and>
    (pre = [] \<or> \<not> is_word (last pre)) \<and> (suf = [] \<or> \<not> is_word (hd suf))"
  then have "re_search RE_RATIO (pre @ ''12345/65535'' @ suf) = Some [''12345'', ''65535'']"
    by (intro search_ratio_after) auto
  with a show "extract_pct (pre @ ''12345/65535'' @ suf) =
        Inr (Some (fmul (fquot (Fin 12345) (Fin 65535)) (Fin 100)))"
    by (simp add: extract_pct_def fdiv_def py_float_examples py_float_denominators)
qed

theorem pct_extraction_order_witness:
  "extract_pct ''Format in progress: 42.5% done, 12345/65535'' = Inr (Some (Fin (85 / 2))) \<and>
   extract_pct ''/dev/sg0: 12345/65535'' =
     Inr (Some (fmul (fquot (Fin 12345) (Fin 65535)) (Fin 100))) \<and>
   re_search RE_PCT ''progress indication 512 / 65536'' = None \<and>
   re_search RE_RATIO ''progress indication 512 / 65536'' = Some [''512'', ''65536''] \<and>
   extract_pct ''progress indication 512 / 65536'' =
     Inr (Some (fmul (fquot (Fin 512) (Fin 65536)) (Fin 100))) \<and>
   extract_pct ''format in progress'' = Inr None"
proof -
  have w: "\<not> is_word CHR '' ''" "\<not> is_digit CHR '' ''"
    by (simp_all add: is_word_def is_digit_def is_ascii_letter_def ascii_upper_def ascii_lower_def)
  have n1: "re_search RE_PCT ''progress indication 512 / 65536'' = None"
    unfolding re_search_def by (rule pct_none) simp
  have r1: "re_search RE_RATIO ''progress indication 512 / 65536'' = Some [''512'', ''65536'']"
    by (simp add: re_search_def RE_RATIO_def is_digit_def is_space_def consume_def
        at_boundary_def is_word_def is_ascii_letter_def ascii_upper_def ascii_lower_def)
  have n2: "re_search RE_PCT ''format in progress'' = None"
    unfolding re_search_def by (rule pct_none) simp
  have r2: "re_search RE_RATIO ''format in progress'' = None"
    by (simp add: re_search_def RE_RATIO_def is_digit_def is_space_def consume_def
        at_boundary_def is_word_def is_ascii_letter_def ascii_upper_def ascii_lower_def)
  have n3: "re_search RE_PCT (''/dev/sg0: '' @ ''12345/65535'' @ []) = None"
    unfolding re_search_def by (rule pct_none) simp
  have s3: "\<not> sublist ''65535'' ''/dev/sg0: ''" "\<not> sublist ''65536'' ''/dev/sg0: ''"
    by (simp_all add: sublist_Cons_right)
  from pct_extraction_order[of "''progress indication 512 / 65536''" "[''512'', ''65536'']"
      "''Format in progress: ''" "'' done, 12345/65535''"] w n1 r1
  have a: "extract_pct (''Format in progress: '' @ ''42.5%'' @ '' done, 12345/65535'') =
             Inr (Some (Fin (85 / 2)))"
    and b: "extract_pct ''progress indication 512 / 65536'' =
             Inr (Some (fmul (fquot (Fin 512) (Fin 65536)) (Fin 100)))"
    by (simp_all add: py_float_examples py_float_denominators)
  from pct_extraction_order[of "''format in progress''" "[]" "''/dev/sg0: ''" "[]"]
    w n2 r2 n3 s3
  have c: "extract_pct (''/dev/sg0: '' @ ''12345/65535'' @ []) =
             Inr (Some (fmul (fquot (Fin 12345) (Fin 65535)) (Fin 100)))"
    and d: "extract_pct ''format in progress'' = Inr None"
    by simp_all
  from a b c d n1 r1 show ?thesis by simp
qed

end
